theory Spec2Isabelle
  imports Main "HOL-Library.Char_ord" "HOL-Library.List_Lexorder" "HOL-Library.AList"
begin

section \<open>Python strings and integers\<close>

text \<open>
  Strings are lists of characters, compared lexicographically by character code as Python
  compares \<^verbatim>\<open>str\<close>. A character is one of the 256 code points below \<open>U+0100\<close>, and the
  character classes below are Python's on these code points.
\<close>

definition TAB :: char where "TAB = CHR 0x09"
definition LF :: char where "LF = CHR 0x0A"
definition CR :: char where "CR = CHR 0x0D"

text \<open>The decimal digits, the only digits that \<^verbatim>\<open>int\<close> reads and \<^verbatim>\<open>str\<close> prints.\<close>

definition is_decimal :: "char \<Rightarrow> bool" where
  "is_decimal c = (c \<in> set ''0123456789'')"

text \<open>
  \<^verbatim>\<open>c.isdigit()\<close> on one character: the decimal digits and the superscript digits two,
  three and one.
\<close>

definition is_digit :: "char \<Rightarrow> bool" where
  "is_digit c = (is_decimal c \<or> c \<in> set [CHR 0xB2, CHR 0xB3, CHR 0xB9])"

text \<open>\<^verbatim>\<open>s.isdigit()\<close>: every character is a digit and there is at least one.\<close>

definition isdigit :: "string \<Rightarrow> bool" where
  "isdigit s = (s \<noteq> [] \<and> list_all is_digit s)"

text \<open>The characters \<^verbatim>\<open>str.strip()\<close> removes: those with \<^verbatim>\<open>c.isspace()\<close>.\<close>

definition is_space :: "char \<Rightarrow> bool" where
  "is_space c = (c \<in> set [CHR 0x09, CHR 0x0A, CHR 0x0B, CHR 0x0C, CHR 0x0D,
                             CHR 0x1C, CHR 0x1D, CHR 0x1E, CHR 0x1F, CHR 0x20,
                             CHR 0x85, CHR 0xA0])"

definition strip :: "string \<Rightarrow> string" where
  "strip s = rev (dropWhile is_space (rev (dropWhile is_space s)))"

text \<open>\<^verbatim>\<open>s.split(sep)\<close> for a one-character separator: never the empty list.\<close>

fun split :: "char \<Rightarrow> string \<Rightarrow> string list" where
  "split sep [] = [[]]"
| "split sep (c # cs) =
     (if c = sep then [] # split sep cs
      else (case split sep cs of [] \<Rightarrow> [[c]] | x # xs \<Rightarrow> (c # x) # xs))"

text \<open>\<^verbatim>\<open>sep.join(xs)\<close>.\<close>

fun join :: "string \<Rightarrow> string list \<Rightarrow> string" where
  "join sep [] = []"
| "join sep [x] = x"
| "join sep (x # y # ys) = x @ sep @ join sep (y # ys)"

text \<open>\<^verbatim>\<open>s.startswith(p)\<close>, \<^verbatim>\<open>p in s\<close> and \<^verbatim>\<open>s.partition(p)[-1]\<close>.\<close>

definition startswith :: "string \<Rightarrow> string \<Rightarrow> bool" where
  "startswith s p = (take (length p) s = p)"

fun after_first :: "string \<Rightarrow> string \<Rightarrow> string option" where
  "after_first p [] = (if p = [] then Some [] else None)"
| "after_first p (c # cs) =
     (if startswith (c # cs) p then Some (drop (length p) (c # cs)) else after_first p cs)"

definition contains :: "string \<Rightarrow> string \<Rightarrow> bool" where
  "contains p s = (after_first p s \<noteq> None)"

text \<open>Decimal digits of a natural number, as \<^verbatim>\<open>str\<close> prints them.\<close>

definition digit_char :: "nat \<Rightarrow> char" where
  "digit_char d = ''0123456789'' ! d"

definition digit_val :: "char \<Rightarrow> nat" where
  "digit_val c = of_char c - 48"

fun digits :: "nat \<Rightarrow> string" where
  "digits n = (if n < 10 then [digit_char n]
               else digits (n div 10) @ [digit_char (n mod 10)])"

declare digits.simps [simp del]

definition nat_of_digits :: "string \<Rightarrow> nat" where
  "nat_of_digits s = foldl (\<lambda>a c. 10 * a + digit_val c) 0 s"

text \<open>\<^verbatim>\<open>str(n)\<close> for an integer.\<close>

definition str_int :: "int \<Rightarrow> string" where
  "str_int n = (if n < 0 then CHR ''-'' # digits (nat (- n)) else digits (nat n))"

text \<open>
  \<^verbatim>\<open>int(s)\<close> for a string, \<open>None\<close> where Python raises \<^verbatim>\<open>ValueError\<close>: white space around
  the literal is dropped, one sign is allowed, and the decimal digits may be grouped by
  single underscores. The white space \<^verbatim>\<open>int\<close> drops is the ASCII white space of C and the
  two spaces above \<open>U+007F\<close>; the four separators \<open>U+001C\<close> to \<open>U+001F\<close> are not dropped.
\<close>

definition is_int_space :: "char \<Rightarrow> bool" where
  "is_int_space c = (c \<in> set [CHR 0x09, CHR 0x0A, CHR 0x0B, CHR 0x0C, CHR 0x0D, CHR 0x20,
                                 CHR 0x85, CHR 0xA0])"

definition int_body :: "string \<Rightarrow> nat option" where
  "int_body s =
     (if list_all (\<lambda>g. g \<noteq> [] \<and> list_all is_decimal g) (split (CHR ''_'') s)
      then Some (nat_of_digits (concat (split (CHR ''_'') s))) else None)"

definition py_int :: "string \<Rightarrow> int option" where
  "py_int s =
     (case rev (dropWhile is_int_space (rev (dropWhile is_int_space s))) of
        [] \<Rightarrow> None
      | c # cs \<Rightarrow>
          if c = CHR ''-'' then map_option (\<lambda>n. - int n) (int_body cs)
          else if c = CHR ''+'' then map_option int (int_body cs)
          else map_option int (int_body (c # cs)))"

section \<open>Word records\<close>

text \<open>A Python value that is an \<^verbatim>\<open>int\<close> or a \<^verbatim>\<open>str\<close>: the ID and HEAD fields, node keys.\<close>

datatype atom = PInt int | PStr string

fun py_str :: "atom \<Rightarrow> string" where
  "py_str (PInt n) = str_int n"
| "py_str (PStr s) = s"

fun is_int :: "atom \<Rightarrow> bool" where
  "is_int (PInt n) = True"
| "is_int (PStr s) = False"

text \<open>FEATS is a \<^verbatim>\<open>dict\<close> from a key to a \<^verbatim>\<open>frozenset\<close> of values, in insertion order.\<close>

type_synonym feats = "(string \<times> string set) list"

record word =
  ID :: atom
  FORM :: string
  LEMMA :: string
  UPOSTAG :: string
  XPOSTAG :: string
  FEATS :: feats
  HEAD :: atom
  DEPREL :: string
  DEPS :: string
  MISC :: string

datatype exn =
    AssertionError | ValueError | IndexError | KeyError | AttributeError
  | UnboundLocalError | ConlluError string


section \<open>Reading\<close>

text \<open>
  The construction of the FEATS dict in \<^verbatim>\<open>_read_word\<close>: each piece between bars must
  unpack into exactly a key and a value.
\<close>

fun feats_items :: "string list \<Rightarrow> (string \<times> string set) list option" where
  "feats_items [] = Some []"
| "feats_items (x # xs) =
     (case split (CHR ''='') x of
        [key, value] \<Rightarrow>
          (case feats_items xs of
             None \<Rightarrow> None
           | Some r \<Rightarrow> Some ((key, set (split (CHR '','') value)) # r))
      | _ \<Rightarrow> None)"

definition dict_of :: "(string \<times> string set) list \<Rightarrow> feats" where
  "dict_of items = foldl (\<lambda>d (key, value). AList.update key value d) [] items"

definition read_feats :: "string \<Rightarrow> feats option" where
  "read_feats s =
     (if s = ''_'' then Some []
      else map_option dict_of (feats_items (split (CHR ''|'') s)))"

definition read_head :: "string \<Rightarrow> atom option" where
  "read_head s = (if s \<noteq> ''_'' then map_option PInt (py_int s) else Some (PStr s))"

definition read_id :: "string \<Rightarrow> exn + atom" where
  "read_id s =
     (if isdigit s then
        (case py_int s of None \<Rightarrow> Inl ValueError | Some n \<Rightarrow> Inr (PInt n))
      else if list_all (\<lambda>c. is_digit c \<or> c = CHR ''-'' \<or> c = CHR ''.'') s then Inr (PStr s)
      else Inl AssertionError)"

text \<open>
  \<^verbatim>\<open>Dataset._read_word\<close>, on the list of fields of a line. \<open>tags\<close> is \<^verbatim>\<open>self.POS_TAGS\<close>, the table
  of module \<^verbatim>\<open>ud\<close> that the constructor selected.
\<close>

definition read_word :: "string list \<Rightarrow> string list \<Rightarrow> exn + word" where
  "read_word tags line =
     (if \<not> (length line = 10 \<and> list_all (\<lambda>item. item \<noteq> []) line) then Inl AssertionError
      else
        (case read_id (line ! 0) of
           Inl e \<Rightarrow> Inl e
         | Inr ident \<Rightarrow>
             if \<not> (line ! 3 \<in> set tags \<or> line ! 3 = ''_'') then Inl AssertionError
             else
               (case read_feats (line ! 5) of
                  None \<Rightarrow> Inl ValueError
                | Some feats \<Rightarrow>
                    (case read_head (line ! 6) of
                       None \<Rightarrow> Inl ValueError
                     | Some head \<Rightarrow>
                         Inr \<lparr>ID = ident, FORM = line ! 1, LEMMA = line ! 2,
                              UPOSTAG = line ! 3, XPOSTAG = line ! 4, FEATS = feats,
                              HEAD = head, DEPREL = line ! 7, DEPS = line ! 8,
                              MISC = line ! 9\<rparr>))))"

text \<open>
  The dataset: the constructor's arguments, with the POS tag table the UD version selects.
\<close>

record dataset =
  file_path :: string
  doc_id_prefix :: string
  sent_id_prefix :: string
  node_labels_type :: string
  POS_TAGS :: "string list"

text \<open>The local variables of \<^verbatim>\<open>gen_sentences\<close> that live across lines.\<close>

record reader =
  sent :: "word list"
  doc_id :: atom
  sent_id :: atom
  sentence_counter :: int

definition reader0 :: reader where
  "reader0 = \<lparr>sent = [], doc_id = PStr [], sent_id = PStr [], sentence_counter = 0\<rparr>"

text \<open>\<^verbatim>\<open>line.partition(p)[-1]\<close>, which raises \<^verbatim>\<open>ValueError\<close> on an empty separator.\<close>

definition partition_last :: "string \<Rightarrow> string \<Rightarrow> exn + string" where
  "partition_last p s =
     (if p = [] then Inl ValueError
      else (case after_first p s of None \<Rightarrow> Inr [] | Some r \<Rightarrow> Inr r))"

text \<open>
  The body of the loop of \<^verbatim>\<open>gen_sentences\<close> on one stripped line: the new state, and the
  sentence it yields, if any.
\<close>

definition read_line ::
  "dataset \<Rightarrow> bool \<Rightarrow> reader \<Rightarrow> string \<Rightarrow> exn + reader \<times> (string \<times> word list) option" where
  "read_line self include_multiwords st line =
     (if startswith line ''#'' then
        (if contains (doc_id_prefix self) line then
           (case partition_last (doc_id_prefix self) line of
              Inl e \<Rightarrow> Inl e
            | Inr d \<Rightarrow> Inr (st\<lparr>doc_id := PStr d\<rparr>, None))
         else if contains (sent_id_prefix self) line then
           (case partition_last (sent_id_prefix self) line of
              Inl e \<Rightarrow> Inl e
            | Inr d \<Rightarrow> Inr (st\<lparr>sent_id := PStr d\<rparr>, None))
         else Inr (st, None))
      else if line \<noteq> [] then
        (case read_word (POS_TAGS self) (split TAB line) of
           Inl e \<Rightarrow> Inl e
         | Inr word \<Rightarrow>
             Inr (if include_multiwords \<or> is_int (ID word)
                  then st\<lparr>sent := sent st @ [word]\<rparr> else st, None))
      else
        (let d = (if doc_id st = PStr [] then PInt 0 else doc_id st);
             s = (if sent_id st = PStr [] then PInt (sentence_counter st) else sent_id st)
         in Inr (st\<lparr>sent := [], doc_id := d, sent_id := s,
                     sentence_counter := sentence_counter st + 1\<rparr>,
                 Some (py_str d @ ''_'' @ py_str s, sent st))))"

text \<open>
  The lines a text file yields when iterated in universal-newlines mode, each with its
  terminator translated to a line feed.
\<close>

fun file_lines :: "string \<Rightarrow> string list" where
  "file_lines [] = []"
| "file_lines (c # cs) =
     (if c = LF then [LF] # file_lines cs
      else if c = CR then (if cs \<noteq> [] \<and> hd cs = LF then file_lines cs else [LF] # file_lines cs)
      else (case file_lines cs of [] \<Rightarrow> [[c]] | l # ls \<Rightarrow> (c # l) # ls))"

text \<open>
  The \<^verbatim>\<open>except\<close> clause for \<^verbatim>\<open>AssertionError\<close> and \<^verbatim>\<open>ValueError\<close>; any other exception
  propagates.
\<close>

definition could_not_read :: "dataset \<Rightarrow> nat \<Rightarrow> exn \<Rightarrow> exn" where
  "could_not_read self line_num e =
     (if e = AssertionError \<or> e = ValueError
      then ConlluError (''Could not read '' @ file_path self @ '':'' @ str_int (int line_num))
      else e)"

text \<open>
  A file: one that cannot be opened, or the text that iterating over it decodes, line by
  line, and the way the iteration ends after the last of these lines: at the end of the
  file, with the \<^verbatim>\<open>UnicodeDecodeError\<close> of bytes that are not UTF-8, or with the
  \<^verbatim>\<open>IOError\<close> of a failed read.
\<close>

datatype ending = EOF | Undecodable | Unreadable

datatype conllu_file = NoFile | File string ending

text \<open>
  What the \<^verbatim>\<open>except\<close> clauses make of the end of the iteration, \<open>count\<close> lines having been
  read. An \<^verbatim>\<open>IOError\<close> becomes the error of a file that cannot be opened. A
  \<^verbatim>\<open>UnicodeDecodeError\<close> is a \<^verbatim>\<open>ValueError\<close>, and its handler formats \<^verbatim>\<open>line_num\<close>: the number
  of the last line read, and a variable not yet bound when no line was read.
\<close>

fun stream_end :: "dataset \<Rightarrow> ending \<Rightarrow> nat \<Rightarrow> exn option" where
  "stream_end self EOF count = None"
| "stream_end self Unreadable count =
     Some (ConlluError (''Could not open '' @ file_path self))"
| "stream_end self Undecodable count =
     (if count = 0 then Some UnboundLocalError
      else Some (ConlluError (''Could not read '' @ file_path self @ '':'' @
                              str_int (int (count - 1)))))"

text \<open>
  A generator is modelled by what it yields and by the exception that ends it, if one
  does. The loop over the enumerated lines, \<open>line_num\<close> being the number of the first of
  them:
\<close>

fun read_lines ::
  "dataset \<Rightarrow> bool \<Rightarrow> ending \<Rightarrow> nat \<Rightarrow> reader \<Rightarrow> string list \<Rightarrow>
   (string \<times> word list) list \<times> exn option"
  where
  "read_lines self include_multiwords e line_num st [] = ([], stream_end self e line_num)"
| "read_lines self include_multiwords e line_num st (l # ls) =
     (case read_line self include_multiwords st (strip l) of
        Inl x \<Rightarrow> ([], Some (could_not_read self line_num x))
      | Inr (st', out) \<Rightarrow>
          (case read_lines self include_multiwords e (Suc line_num) st' ls of
             (ys, err) \<Rightarrow> ((case out of None \<Rightarrow> ys | Some y \<Rightarrow> y # ys), err)))"

text \<open>\<^verbatim>\<open>Dataset.gen_sentences\<close>.\<close>

definition gen_sentences ::
  "dataset \<Rightarrow> bool \<Rightarrow> conllu_file \<Rightarrow> (string \<times> word list) list \<times> exn option" where
  "gen_sentences self include_multiwords f =
     (case f of
        NoFile \<Rightarrow> ([], Some (ConlluError (''Could not open '' @ file_path self)))
      | File content e \<Rightarrow>
          read_lines self include_multiwords e 0 reader0 (file_lines content))"

section \<open>Graphs\<close>

text \<open>
  A \<^verbatim>\<open>networkx.DiGraph\<close> (version 1 of the library, where \<^verbatim>\<open>nodes\<close> and \<^verbatim>\<open>in_edges\<close> return
  lists): the node table, the edge table and the graph's own attribute dict, each a dict in
  insertion order. The attribute dict of a node holds the keys below, each present or
  absent; so does that of an edge.
\<close>

record node_data =
  n_label :: "string option"
  n_FORM :: "string option"
  n_LEMMA :: "string option"
  n_UPOSTAG :: "string option"
  n_XPOSTAG :: "string option"
  n_FEATS :: "feats option"
  n_DEPS :: "string option"
  n_MISC :: "string option"

record edge_data =
  e_label :: "string option"
  e_DEPREL :: "string option"

text \<open>What a sentence list or the graph's attribute dict holds: a Word tuple or a string.\<close>

datatype item = W word | S string

record digraph =
  nodes :: "(atom \<times> node_data) list"
  edges :: "((atom \<times> atom) \<times> edge_data) list"
  graph :: "(string \<times> item) list"

definition no_node_data :: node_data where
  "no_node_data = \<lparr>n_label = None, n_FORM = None, n_LEMMA = None, n_UPOSTAG = None,
                    n_XPOSTAG = None, n_FEATS = None, n_DEPS = None, n_MISC = None\<rparr>"

definition no_edge_data :: edge_data where
  "no_edge_data = \<lparr>e_label = None, e_DEPREL = None\<rparr>"

definition DiGraph :: digraph where
  "DiGraph = \<lparr>nodes = [], edges = [], graph = []\<rparr>"

text \<open>\<^verbatim>\<open>graph.add_node(n, label=l)\<close>: a new node, or an update of the node's attributes.\<close>

definition add_node :: "atom \<Rightarrow> string option \<Rightarrow> digraph \<Rightarrow> digraph" where
  "add_node n l g =
     (let d = (case map_of (nodes g) n of None \<Rightarrow> no_node_data | Some d \<Rightarrow> d)
      in g\<lparr>nodes := AList.update n (case l of None \<Rightarrow> d | Some x \<Rightarrow> d\<lparr>n_label := Some x\<rparr>)
                       (nodes g)\<rparr>)"

text \<open>
  \<^verbatim>\<open>graph.add_edge(u, v, label=l)\<close>: both ends become nodes if they are not, and the
  edge's attributes are updated.
\<close>

definition add_edge :: "atom \<Rightarrow> atom \<Rightarrow> string \<Rightarrow> digraph \<Rightarrow> digraph" where
  "add_edge u v l g =
     (let g' = add_node v None (add_node u None g);
          d = (case map_of (edges g) (u, v) of None \<Rightarrow> no_edge_data | Some d \<Rightarrow> d)
      in g'\<lparr>edges := AList.update (u, v) (d\<lparr>e_label := Some l\<rparr>) (edges g)\<rparr>)"

text \<open>\<^verbatim>\<open>graph.in_edges(key, data=True)\<close>.\<close>

definition in_edges :: "digraph \<Rightarrow> atom \<Rightarrow> (atom \<times> atom \<times> edge_data) list" where
  "in_edges g key = map (\<lambda>((u, v), d). (u, v, d)) (filter (\<lambda>((u, v), d). v = key) (edges g))"

text \<open>The choice of the label; no branch assigns \<^verbatim>\<open>node_label\<close> for another type.\<close>

definition node_label :: "dataset \<Rightarrow> word \<Rightarrow> exn + string" where
  "node_label self word =
     (if node_labels_type self = ''FORM'' then Inr (FORM word)
      else if node_labels_type self = ''LEMMA'' then Inr (LEMMA word)
      else if node_labels_type self = ''POS'' then Inr (UPOSTAG word)
      else Inl UnboundLocalError)"

text \<open>The body of the loop over the words of a sentence in \<^verbatim>\<open>gen_graphs\<close>.\<close>

definition add_word :: "dataset \<Rightarrow> bool \<Rightarrow> word \<Rightarrow> digraph \<Rightarrow> exn + digraph" where
  "add_word self edgeless word g =
     (if is_int (ID word) then
        (case node_label self word of
           Inl e \<Rightarrow> Inl e
         | Inr l \<Rightarrow>
             (let g' = add_node (PStr (py_str (ID word))) (Some l) g
              in if \<not> edgeless \<and> HEAD word \<noteq> PStr ''_''
                 then Inr (add_edge (PStr (py_str (HEAD word))) (PStr (py_str (ID word)))
                             (DEPREL word) g')
                 else Inr g'))
      else Inr (g\<lparr>graph := AList.update (py_str (ID word)) (S (py_str (ID word))) (graph g)\<rparr>))"

fun add_words :: "dataset \<Rightarrow> bool \<Rightarrow> word list \<Rightarrow> digraph \<Rightarrow> exn + digraph" where
  "add_words self edgeless [] g = Inr g"
| "add_words self edgeless (word # ws) g =
     (case add_word self edgeless word g of
        Inl e \<Rightarrow> Inl e
      | Inr g' \<Rightarrow> add_words self edgeless ws g')"

definition sentence_graph :: "dataset \<Rightarrow> bool \<Rightarrow> word list \<Rightarrow> exn + digraph" where
  "sentence_graph self edgeless ws =
     add_words self edgeless ws (add_node (PStr ''0'') (Some [CHR 0xA0]) DiGraph)"

text \<open>
  The loop of \<^verbatim>\<open>gen_graphs\<close> over the sentences: the exception that ends the sentence
  generator is met only after every sentence it yielded has become a graph.
\<close>

fun graphs_of ::
  "dataset \<Rightarrow> bool \<Rightarrow> (string \<times> word list) list \<Rightarrow> exn option \<Rightarrow>
   (string \<times> digraph) list \<times> exn option" where
  "graphs_of self edgeless [] err = ([], err)"
| "graphs_of self edgeless ((name, ws) # rest) err =
     (case sentence_graph self edgeless ws of
        Inl e \<Rightarrow> ([], Some e)
      | Inr g \<Rightarrow>
          (case graphs_of self edgeless rest err of (gs, err') \<Rightarrow> ((name, g) # gs, err')))"

definition gen_graphs ::
  "dataset \<Rightarrow> bool \<Rightarrow> conllu_file \<Rightarrow> (string \<times> digraph) list \<times> exn option" where
  "gen_graphs self edgeless f =
     (case gen_sentences self True f of (sents, err) \<Rightarrow> graphs_of self edgeless sents err)"

section \<open>Writing\<close>

text \<open>\<^verbatim>\<open>'{}={}'.format(key, ','.join(sorted(value)))\<close> for one item of FEATS.\<close>

fun format_feat :: "string \<times> string set \<Rightarrow> string" where
  "format_feat (key, value) = key @ ''='' @ join '','' (sorted_list_of_set value)"

definition format_feats :: "feats \<Rightarrow> string" where
  "format_feats f =
     (if f \<noteq> [] then join ''|'' (map format_feat (sort_key fst f)) else ''_'')"

text \<open>\<^verbatim>\<open>Dataset.format_word\<close>: the ten fields, joined by tabs.\<close>

definition word_fields :: "word \<Rightarrow> string list" where
  "word_fields w =
     [py_str (ID w), FORM w, LEMMA w, UPOSTAG w, XPOSTAG w, format_feats (FEATS w),
      py_str (HEAD w), DEPREL w, DEPS w, MISC w]"

definition format_word :: "word \<Rightarrow> string" where
  "format_word w = join [TAB] (word_fields w)"

definition format_sentence :: "word list \<Rightarrow> string" where
  "format_sentence sentence = join [LF] (map format_word sentence @ [[], []])"

fun is_Word :: "item \<Rightarrow> bool" where
  "is_Word (W w) = True"
| "is_Word (S s) = False"

fun the_Word :: "item \<Rightarrow> word" where
  "the_Word (W w) = w"
| "the_Word (S s) = undefined"

text \<open>
  \<^verbatim>\<open>Dataset.write_sentences\<close>: the text written when the call returns, or the exception
  it raises. \<open>writable\<close> says whether the file can be opened for writing.
\<close>

fun write_all :: "item list list \<Rightarrow> exn + string" where
  "write_all [] = Inr []"
| "write_all (sentence # rest) =
     (if \<not> list_all is_Word sentence
      then Inl (ConlluError ''Sentences must be sequences of Word tuples'')
      else (case write_all rest of
              Inl e \<Rightarrow> Inl e
            | Inr text \<Rightarrow> Inr (format_sentence (map the_Word sentence) @ text)))"

definition write_sentences :: "dataset \<Rightarrow> bool \<Rightarrow> item list list \<Rightarrow> exn + string" where
  "write_sentences self writable sentences =
     (if \<not> writable then Inl (ConlluError (''Could not write '' @ file_path self))
      else write_all sentences)"

text \<open>The body of the loop over the nodes in \<^verbatim>\<open>write_graphs\<close>, for a node that is not skipped.\<close>

definition node_word :: "digraph \<Rightarrow> atom \<Rightarrow> node_data \<Rightarrow> exn + word" where
  "node_word g key data =
     (case in_edges g key of
        [] \<Rightarrow> Inl IndexError
      | edge # _ \<Rightarrow>
          if n_FORM data = None \<or> n_LEMMA data = None \<or> n_UPOSTAG data = None
          then Inl (ConlluError ''Graphs do not conform to the spec'')
          else
            (case n_FEATS data of
               None \<Rightarrow> Inl KeyError
             | Some feats \<Rightarrow>
                 Inr \<lparr>ID = key, FORM = the (n_FORM data), LEMMA = the (n_LEMMA data),
                      UPOSTAG = the (n_UPOSTAG data),
                      XPOSTAG = (case n_XPOSTAG data of Some x \<Rightarrow> x | None \<Rightarrow> ''_''),
                      FEATS = feats, HEAD = fst edge,
                      DEPREL = (case e_DEPREL (snd (snd edge)) of Some x \<Rightarrow> x | None \<Rightarrow> ''_''),
                      DEPS = (case n_DEPS data of Some x \<Rightarrow> x | None \<Rightarrow> ''_''),
                      MISC = (case n_MISC data of Some x \<Rightarrow> x | None \<Rightarrow> ''_'')\<rparr>))"

fun node_words :: "digraph \<Rightarrow> (atom \<times> node_data) list \<Rightarrow> exn + word list" where
  "node_words g [] = Inr []"
| "node_words g ((key, data) # rest) =
     (if key = PInt 0 then node_words g rest
      else
        (case node_word g key data of
           Inl e \<Rightarrow> Inl e
         | Inr w \<Rightarrow> (case node_words g rest of Inl e \<Rightarrow> Inl e | Inr ws \<Rightarrow> Inr (w # ws))))"

text \<open>
  \<^verbatim>\<open>next((i for i, w in enumerate(sentence) if w.ID == key))\<close>, with the
  \<^verbatim>\<open>StopIteration\<close> already turned into the \<^verbatim>\<open>ConlluError\<close> of the \<^verbatim>\<open>except\<close> clause.
\<close>

fun index_of_id :: "int \<Rightarrow> item list \<Rightarrow> exn + nat" where
  "index_of_id key [] = Inl (ConlluError ''Graphs do not conform to the spec'')"
| "index_of_id key (S s # ws) = Inl AttributeError"
| "index_of_id key (W w # ws) =
     (if ID w = PInt key then Inr 0
      else (case index_of_id key ws of Inl e \<Rightarrow> Inl e | Inr i \<Rightarrow> Inr (Suc i)))"

definition list_insert :: "nat \<Rightarrow> 'a \<Rightarrow> 'a list \<Rightarrow> 'a list" where
  "list_insert i x xs = take i xs @ x # drop i xs"

text \<open>The loop over \<^verbatim>\<open>graph.graph.items()\<close> in \<^verbatim>\<open>write_graphs\<close>.\<close>

fun splice :: "(string \<times> item) list \<Rightarrow> item list \<Rightarrow> exn + item list" where
  "splice [] sentence = Inr sentence"
| "splice ((key, word) # rest) sentence =
     (case py_int (hd (split (CHR ''-'') key)) of
        None \<Rightarrow> Inl (ConlluError ''Graphs do not conform to the spec'')
      | Some k \<Rightarrow>
          (case index_of_id k sentence of
             Inl e \<Rightarrow> Inl e
           | Inr i \<Rightarrow> splice rest (list_insert i word sentence)))"

text \<open>The sentence \<^verbatim>\<open>write_graphs\<close> builds from one graph.\<close>

definition graph_sentence :: "digraph \<Rightarrow> exn + item list" where
  "graph_sentence g =
     (case node_words g (nodes g) of
        Inl e \<Rightarrow> Inl e
      | Inr ws \<Rightarrow> splice (graph g) (map W ws))"

fun graph_sentences :: "digraph list \<Rightarrow> exn + item list list" where
  "graph_sentences [] = Inr []"
| "graph_sentences (g # gs) =
     (case graph_sentence g of
        Inl e \<Rightarrow> Inl e
      | Inr s \<Rightarrow> (case graph_sentences gs of Inl e \<Rightarrow> Inl e | Inr ss \<Rightarrow> Inr (s # ss)))"

text \<open>\<^verbatim>\<open>Dataset.write_graphs\<close>.\<close>

definition write_graphs :: "dataset \<Rightarrow> bool \<Rightarrow> digraph list \<Rightarrow> exn + string" where
  "write_graphs self writable graphs =
     (case graph_sentences graphs of
        Inl e \<Rightarrow> Inl e
      | Inr sentences \<Rightarrow> write_sentences self writable sentences)"

text \<open>The lines on which the body of the loop of \<^verbatim>\<open>gen_sentences\<close> raises.\<close>

definition bad_line :: "dataset \<Rightarrow> string \<Rightarrow> bool" where
  "bad_line self line = isl (read_line self False reader0 line)"

section \<open>The conditions the specification gives for a line\<close>










section \<open>Well-formed words\<close>

text \<open>
  The words that \<^verbatim>\<open>gen_sentences\<close> can yield. An id is a natural number or a string of
  digits, hyphens and dots that is not a number; a head is an integer or the placeholder;
  a text field is not empty and holds no tab and no line break; the last field of a
  stripped line does not end in white space; the keys of FEATS are distinct, no key or
  value holds a separator, and every set of values is finite and not empty.
\<close>

definition plain :: "string \<Rightarrow> bool" where
  "plain s = (s \<noteq> [] \<and> TAB \<notin> set s \<and> LF \<notin> set s \<and> CR \<notin> set s)"

fun wf_id :: "atom \<Rightarrow> bool" where
  "wf_id (PInt n) = (0 \<le> n)"
| "wf_id (PStr s) =
     (s \<noteq> [] \<and> \<not> isdigit s \<and> list_all (\<lambda>c. is_digit c \<or> c = CHR ''-'' \<or> c = CHR ''.'') s)"

fun wf_head :: "atom \<Rightarrow> bool" where
  "wf_head (PInt n) = True"
| "wf_head (PStr s) = (s = ''_'')"

definition feat_key :: "string \<Rightarrow> bool" where
  "feat_key s = (set s \<inter> {CHR ''='', CHR ''|'', TAB, LF, CR} = {})"

definition feat_value :: "string \<Rightarrow> bool" where
  "feat_value s = (set s \<inter> {CHR '','', CHR ''='', CHR ''|'', TAB, LF, CR} = {})"

fun wf_item :: "string \<times> string set \<Rightarrow> bool" where
  "wf_item (key, value) =
     (feat_key key \<and> finite value \<and> value \<noteq> {} \<and> (\<forall>v\<in>value. feat_value v))"

definition wf_feats :: "feats \<Rightarrow> bool" where
  "wf_feats f = (distinct (map fst f) \<and> list_all wf_item f)"

definition wf_word :: "string list \<Rightarrow> word \<Rightarrow> bool" where
  "wf_word tags w =
     (wf_id (ID w) \<and> plain (FORM w) \<and> plain (LEMMA w) \<and> plain (UPOSTAG w) \<and>
      (UPOSTAG w \<in> set tags \<or> UPOSTAG w = ''_'') \<and> plain (XPOSTAG w) \<and>
      wf_feats (FEATS w) \<and> wf_head (HEAD w) \<and> plain (DEPREL w) \<and> plain (DEPS w) \<and>
      plain (MISC w) \<and> \<not> is_space (last (MISC w)))"

text \<open>
  The order of the keys of a dict does not count in Python's equality; in the model it
  does, so a word is compared after its FEATS is put in the order of its keys.
\<close>

definition canon :: "word \<Rightarrow> word" where
  "canon w = w\<lparr>FEATS := sort_key fst (FEATS w)\<rparr>"

section \<open>Example data\<close>

definition example_dataset :: dataset where
  "example_dataset =
     \<lparr>file_path = ''en.conllu'', doc_id_prefix = ''# newdoc id = '',
      sent_id_prefix = ''# sent_id = '', node_labels_type = ''FORM'',
      POS_TAGS = [''DET'', ''NOUN'', ''VERB'', ''PART'']\<rparr>"

definition line_the :: string where
  "line_the = join [TAB] [''1'', ''The'', ''the'', ''DET'', ''_'', ''_'', ''2'', ''det'', ''_'', ''_'']"

definition line_dog :: string where
  "line_dog = join [TAB] [''2'', ''dog'', ''dog'', ''NOUN'', ''_'', ''_'', ''0'', ''root'', ''_'', ''_'']"

text \<open>The first line with its id written with a leading zero.\<close>

definition line_leading_zero :: string where
  "line_leading_zero =
     join [TAB] [''01'', ''The'', ''the'', ''DET'', ''_'', ''_'', ''2'', ''det'', ''_'', ''_'']"

definition the_dog :: string where
  "the_dog = line_the @ [LF] @ line_dog @ [LF] @ [LF]"

definition line_gonna :: string where
  "line_gonna = join [TAB] [''3-4'', ''gonna'', ''_'', ''_'', ''_'', ''_'', ''_'', ''_'', ''_'', ''_'']"

definition line_gon :: string where
  "line_gon = join [TAB] [''3'', ''gon'', ''go'', ''VERB'', ''_'', ''_'', ''0'', ''root'', ''_'', ''_'']"

definition line_na :: string where
  "line_na = join [TAB] [''4'', ''na'', ''to'', ''PART'', ''_'', ''_'', ''3'', ''mark'', ''_'', ''_'']"

definition gonna :: string where
  "gonna = line_gonna @ [LF] @ line_gon @ [LF] @ line_na @ [LF] @ [LF]"

text \<open>A word with two features, and its line as a file may hold it and as it is written.\<close>

definition word_dogs :: word where
  "word_dogs =
     \<lparr>ID = PInt 1, FORM = ''dogs'', LEMMA = ''dog'', UPOSTAG = ''NOUN'', XPOSTAG = ''_'',
      FEATS = [(''Number'', {''Plur''}), (''Case'', {''Nom'', ''Acc''})], HEAD = PInt 0,
      DEPREL = ''root'', DEPS = ''_'', MISC = ''_''\<rparr>"

definition line_dogs :: string where
  "line_dogs =
     join [TAB] [''1'', ''dogs'', ''dog'', ''NOUN'', ''_'', ''Number=Plur|Case=Nom,Acc'', ''0'',
                 ''root'', ''_'', ''_'']"

definition line_dogs_sorted :: string where
  "line_dogs_sorted =
     join [TAB] [''1'', ''dogs'', ''dog'', ''NOUN'', ''_'', ''Case=Acc,Nom|Number=Plur'', ''0'',
                 ''root'', ''_'', ''_'']"

text \<open>
  Graphs of the shape \<^verbatim>\<open>write_graphs\<close> reads: integer keys, the word's fields as node
  attributes, the relation as the edge attribute \<^verbatim>\<open>DEPREL\<close>.
\<close>

definition token :: "string \<Rightarrow> string \<Rightarrow> string \<Rightarrow> node_data" where
  "token form lemma upos =
     no_node_data\<lparr>n_FORM := Some form, n_LEMMA := Some lemma, n_UPOSTAG := Some upos,
                  n_FEATS := Some []\<rparr>"

definition deprel :: "string \<Rightarrow> edge_data" where
  "deprel r = no_edge_data\<lparr>e_DEPREL := Some r\<rparr>"

definition dog_graph :: digraph where
  "dog_graph =
     \<lparr>nodes = [(PInt 0, no_node_data), (PInt 1, token ''The'' ''the'' ''DET''),
               (PInt 2, token ''dog'' ''dog'' ''NOUN'')],
      edges = [((PInt 2, PInt 1), deprel ''det''), ((PInt 0, PInt 2), deprel ''root'')],
      graph = []\<rparr>"

text \<open>The same graph with the node of the second word added before that of the first.\<close>

definition dog_first :: digraph where
  "dog_first =
     \<lparr>nodes = [(PInt 0, no_node_data), (PInt 2, token ''dog'' ''dog'' ''NOUN''),
               (PInt 1, token ''The'' ''the'' ''DET'')],
      edges = [((PInt 0, PInt 2), deprel ''root''), ((PInt 2, PInt 1), deprel ''det'')],
      graph = []\<rparr>"

text \<open>A graph whose node 1 has two incoming edges.\<close>

definition two_heads :: digraph where
  "two_heads =
     \<lparr>nodes = [(PInt 0, no_node_data), (PInt 1, token ''The'' ''the'' ''DET''),
               (PInt 2, token ''dog'' ''dog'' ''NOUN'')],
      edges = [((PInt 2, PInt 1), deprel ''det''), ((PInt 0, PInt 1), deprel ''root''),
               ((PInt 0, PInt 2), deprel ''root'')],
      graph = []\<rparr>"

text \<open>A graph whose node 1 has no lemma.\<close>

definition no_lemma :: digraph where
  "no_lemma =
     \<lparr>nodes = [(PInt 0, no_node_data),
               (PInt 1, (token ''The'' ''the'' ''DET'')\<lparr>n_LEMMA := None\<rparr>),
               (PInt 2, token ''dog'' ''dog'' ''NOUN'')],
      edges = [((PInt 2, PInt 1), deprel ''det''), ((PInt 0, PInt 2), deprel ''root'')],
      graph = []\<rparr>"

text \<open>
  The graph of the sentence with the multiword token, in the same shape, with \<open>x\<close> stored
  under the key \<open>3-4\<close> of the graph's attribute dict; and the record of the multiword line.
\<close>

definition gonna_graph :: "item \<Rightarrow> digraph" where
  "gonna_graph x =
     \<lparr>nodes = [(PInt 0, no_node_data), (PInt 3, token ''gon'' ''go'' ''VERB''),
               (PInt 4, token ''na'' ''to'' ''PART'')],
      edges = [((PInt 0, PInt 3), deprel ''root''), ((PInt 3, PInt 4), deprel ''mark'')],
      graph = [(''3-4'', x)]\<rparr>"

definition word_gonna :: word where
  "word_gonna =
     \<lparr>ID = PStr ''3-4'', FORM = ''gonna'', LEMMA = ''_'', UPOSTAG = ''_'', XPOSTAG = ''_'',
      FEATS = [], HEAD = PStr ''_'', DEPREL = ''_'', DEPS = ''_'', MISC = ''_''\<rparr>"

section \<open>Facts about the string functions\<close>

lemma split_not_Nil [simp]: "split c s \<noteq> []"
  by (induction s) (auto split: list.splits)

lemma split_no_sep: "x \<in> set (split c s) \<Longrightarrow> c \<notin> set x"
  by (induction s arbitrary: x) (auto split: list.splits if_splits)

lemma split_chars: "x \<in> set (split c s) \<Longrightarrow> set x \<subseteq> set s"
proof (induction s arbitrary: x)
  case Nil
  then show ?case by simp
next
  case (Cons a s)
  obtain y ys where sp: "split c s = y # ys"
    by (cases "split c s") auto
  from Cons.IH sp have "set y \<subseteq> set s" and "\<forall>z\<in>set ys. set z \<subseteq> set s"
    by auto
  with Cons.prems sp show ?case
    by (auto split: if_splits)
qed

lemma split_notin: "c \<notin> set s \<Longrightarrow> split c s = [s]"
  by (induction s) auto

lemma split_append: "c \<notin> set x \<Longrightarrow> split c (x @ c # s) = x # split c s"
  by (induction x) auto

lemma join_split: "join [c] (split c s) = s"
proof (induction s)
  case Nil
  show ?case by simp
next
  case (Cons a s)
  obtain x xs where sp: "split c s = x # xs"
    by (cases "split c s") auto
  show ?case
  proof (cases "a = c")
    case True
    with Cons sp show ?thesis by simp
  next
    case False
    with Cons sp show ?thesis by (cases xs) auto
  qed
qed

lemma split_join:
  "xs \<noteq> [] \<Longrightarrow> \<forall>x\<in>set xs. c \<notin> set x \<Longrightarrow> split c (join [c] xs) = xs"
proof (induction xs)
  case Nil
  then show ?case by simp
next
  case (Cons x xs)
  show ?case
  proof (cases xs)
    case Nil
    with Cons.prems show ?thesis by (simp add: split_notin)
  next
    case (Cons y ys)
    with Cons.IH Cons.prems show ?thesis by (simp add: split_append)
  qed
qed

lemma digit_char_is_decimal: "d < 10 \<Longrightarrow> is_decimal (digit_char d)"
proof -
  assume "d < 10"
  then have "d \<in> {0,1,2,3,4,5,6,7,8,9}" by auto
  then show ?thesis by (auto simp: is_decimal_def digit_char_def)
qed

lemma digit_val_digit_char: "d < 10 \<Longrightarrow> digit_val (digit_char d) = d"
proof -
  assume "d < 10"
  then have "d \<in> {0,1,2,3,4,5,6,7,8,9}" by auto
  then show ?thesis by (auto simp: digit_val_def digit_char_def)
qed

lemma digits_not_Nil: "digits n \<noteq> []"
  by (induction n rule: digits.induct) (subst digits.simps, simp)

lemma digits_all_decimal: "list_all is_decimal (digits n)"
proof (induction n rule: digits.induct)
  case (1 n)
  show ?case
  proof (cases "n < 10")
    case True
    then show ?thesis by (subst digits.simps) (simp add: digit_char_is_decimal)
  next
    case False
    with 1 show ?thesis by (subst digits.simps) (simp add: digit_char_is_decimal)
  qed
qed

lemma nat_of_digits_snoc: "nat_of_digits (s @ [c]) = 10 * nat_of_digits s + digit_val c"
  by (simp add: nat_of_digits_def)

lemma nat_of_digits_digits: "nat_of_digits (digits n) = n"
proof (induction n rule: digits.induct)
  case (1 n)
  show ?case
  proof (cases "n < 10")
    case True
    then show ?thesis
      by (subst digits.simps) (simp add: nat_of_digits_def digit_val_digit_char)
  next
    case False
    with 1 show ?thesis
      by (subst digits.simps) (simp add: nat_of_digits_snoc digit_val_digit_char)
  qed
qed

lemma trim_id:
  "s \<noteq> [] \<Longrightarrow> \<not> P (hd s) \<Longrightarrow> \<not> P (last s) \<Longrightarrow> rev (dropWhile P (rev (dropWhile P s))) = s"
proof -
  assume a: "s \<noteq> []" "\<not> P (hd s)" "\<not> P (last s)"
  then have "dropWhile P s = s" by (cases s) auto
  moreover from a have "dropWhile P (rev s) = rev s"
    by (cases "rev s") (auto simp: last_rev[symmetric] simp del: last_rev)
  ultimately show ?thesis by simp
qed

lemma is_decimal_digit: "is_decimal c \<Longrightarrow> is_digit c"
  by (simp add: is_digit_def)

lemma all_decimal_digit: "list_all is_decimal s \<Longrightarrow> list_all is_digit s"
  by (simp add: list_all_iff is_decimal_digit)

lemma is_digit_cases:
  "is_digit c \<Longrightarrow> \<not> is_int_space c \<and> \<not> is_space c \<and> c \<noteq> CHR ''_'' \<and> c \<noteq> CHR ''-'' \<and>
     c \<noteq> CHR ''+'' \<and> c \<noteq> CHR ''#'' \<and> c \<noteq> TAB \<and> c \<noteq> LF \<and> c \<noteq> CR"
  by (auto simp: is_digit_def is_decimal_def is_int_space_def is_space_def TAB_def LF_def CR_def)

lemma int_body_digits:
  "s \<noteq> [] \<Longrightarrow> list_all is_digit s \<Longrightarrow>
     int_body s = (if list_all is_decimal s then Some (nat_of_digits s) else None)"
proof -
  assume a: "s \<noteq> []" "list_all is_digit s"
  then have "CHR ''_'' \<notin> set s"
    using is_digit_cases by (auto simp: list_all_iff)
  then have "split (CHR ''_'') s = [s]" by (rule split_notin)
  with a show ?thesis by (simp add: int_body_def)
qed

lemma py_int_isdigit:
  "isdigit s \<Longrightarrow>
     py_int s = (if list_all is_decimal s then Some (int (nat_of_digits s)) else None)"
proof -
  assume "isdigit s"
  then have ne: "s \<noteq> []" and dig: "list_all is_digit s"
    by (simp_all add: isdigit_def)
  from ne dig have h: "is_digit (hd s)" and l: "is_digit (last s)"
    by (auto simp: list_all_iff)
  from ne h l have "rev (dropWhile is_int_space (rev (dropWhile is_int_space s))) = s"
    by (intro trim_id) (auto dest: is_digit_cases)
  moreover obtain c cs where s: "s = c # cs" using ne by (cases s) auto
  moreover from h s have "c \<noteq> CHR ''-''" "c \<noteq> CHR ''+''"
    by (auto dest: is_digit_cases)
  ultimately show ?thesis
    using int_body_digits[OF ne dig] by (simp add: py_int_def)
qed

lemma isdigit_digits: "isdigit (digits n)"
  by (simp add: isdigit_def digits_not_Nil digits_all_decimal all_decimal_digit)

lemma py_int_digits: "py_int (digits n) = Some (int n)"
  by (simp add: py_int_isdigit[OF isdigit_digits] digits_all_decimal nat_of_digits_digits)

lemma py_int_str_int: "py_int (str_int n) = Some n"
proof (cases "n < 0")
  case False
  then show ?thesis
    by (simp add: str_int_def py_int_digits)
next
  case True
  let ?d = "digits (nat (- n))"
  have ne: "?d \<noteq> []" by (rule digits_not_Nil)
  have dig: "list_all is_digit ?d" by (simp add: digits_all_decimal all_decimal_digit)
  from ne dig have "is_digit (last ?d)" by (auto simp: list_all_iff)
  then have "\<not> is_int_space (last (CHR ''-'' # ?d))"
    using ne by (auto dest: is_digit_cases)
  moreover have "\<not> is_int_space (hd (CHR ''-'' # ?d))"
    by (simp add: is_int_space_def)
  ultimately have
    "rev (dropWhile is_int_space (rev (dropWhile is_int_space (CHR ''-'' # ?d)))) = CHR ''-'' # ?d"
    by (intro trim_id) simp_all
  with True show ?thesis
    using int_body_digits[OF ne dig]
    by (simp add: str_int_def py_int_def nat_of_digits_digits digits_all_decimal)
qed

section \<open>When a line is rejected\<close>








section \<open>The loop of the sentence reader\<close>



lemma isl_read_line: "isl (read_line self inc st line) = bad_line self line"
  by (auto simp: bad_line_def read_line_def Let_def split: if_splits sum.splits)


lemma read_line_good:
  "\<not> bad_line self line \<Longrightarrow> \<exists>st' out. read_line self inc st line = Inr (st', out)"
  using isl_read_line[of self inc st line]
  by (cases "read_line self inc st line") auto

lemma read_line_yield:
  "read_line self inc st line = Inr (st', out) \<Longrightarrow> (out \<noteq> None) = (line = [])"
  by (auto simp: read_line_def Let_def startswith_def split: if_splits sum.splits)


lemma length_fst_read_lines:
  "length (fst (read_lines self inc e k st ls)) \<le> length (filter (\<lambda>l. strip l = []) ls)"
proof (induction ls arbitrary: k st)
  case Nil
  show ?case by simp
next
  case (Cons l ls)
  show ?case
  proof (cases "read_line self inc st (strip l)")
    case (Inl e)
    then show ?thesis by simp
  next
    case (Inr r)
    obtain st' out where r: "r = (st', out)" by (cases r)
    from Inr r read_line_yield[of self inc st "strip l" st' out]
    have "(out \<noteq> None) = (strip l = [])" by simp
    with Inr r Cons.IH[of "Suc k" st'] show ?thesis
      by (auto split: prod.splits option.splits)
  qed
qed

lemma read_lines_tail:
  "list_all (\<lambda>l. strip l \<noteq> [] \<and> \<not> bad_line self (strip l)) ls \<Longrightarrow>
     read_lines self inc e k st ls = ([], stream_end self e (k + length ls))"
proof (induction ls arbitrary: k st)
  case Nil
  show ?case by simp
next
  case (Cons l ls)
  then have ok: "\<not> bad_line self (strip l)" and ne: "strip l \<noteq> []" by simp_all
  from read_line_good[OF ok, of inc st] obtain st' out
    where r: "read_line self inc st (strip l) = Inr (st', out)" by blast
  with read_line_yield[OF r] ne have "out = None" by (cases out) auto
  with r Cons show ?case by simp
qed

lemma read_lines_append_tail:
  "list_all (\<lambda>l. strip l \<noteq> [] \<and> \<not> bad_line self (strip l)) rest \<Longrightarrow>
     read_lines self inc EOF k st (ls @ rest) = read_lines self inc EOF k st ls"
proof (induction ls arbitrary: k st)
  case Nil
  then show ?case by (simp add: read_lines_tail)
next
  case (Cons l ls)
  then show ?case
    by (auto split: sum.splits prod.splits)
qed

lemma file_lines_Nil: "file_lines s = [] \<longleftrightarrow> s = []"
  by (induction s) (auto split: list.splits)

lemma file_lines_append:
  "a = [] \<or> last a = LF \<or> (last a = CR \<and> (b = [] \<or> hd b \<noteq> LF)) \<Longrightarrow>
     file_lines (a @ b) = file_lines a @ file_lines b"
proof (induction a)
  case Nil
  show ?case by simp
next
  case (Cons c a)
  show ?case
  proof (cases "a = []")
    case True
    with Cons.prems show ?thesis by (auto simp: LF_def CR_def)
  next
    case False
    with Cons.prems have "last a = LF \<or> (last a = CR \<and> (b = [] \<or> hd b \<noteq> LF))" by simp
    with Cons.IH have IH: "file_lines (a @ b) = file_lines a @ file_lines b" by simp
    from False have "file_lines a \<noteq> []" by (simp add: file_lines_Nil)
    then obtain l ls where "file_lines a = l # ls" by (cases "file_lines a") auto
    with IH False show ?thesis by (auto simp: hd_append)
  qed
qed

section \<open>Sentence names\<close>

text \<open>
  C5. Without id comments the first sentence of a stream is to be named \<open>0_0\<close> and the second
  \<open>0_1\<close>. The reader names both \<open>0_0\<close>: the blank line that closes the first sentence stores
  the integers 0 and 0 in \<^verbatim>\<open>doc_id\<close> and \<^verbatim>\<open>sent_id\<close>, neither is reset to the empty string after
  the \<^verbatim>\<open>yield\<close>, and so the incremented \<^verbatim>\<open>sentence_counter\<close> is never read again.
\<close>

theorem second_sentence_named_0_0:
  "map fst (fst (gen_sentences example_dataset False (File (the_dog @ the_dog) EOF))) =
     [''0_0'', ''0_0'']"
  by code_simp

section \<open>From the graphs of a file back to sentences\<close>

text \<open>
  C1. Writing the graphs that \<^verbatim>\<open>gen_graphs\<close> builds is to give the sentence back. On the
  two-word sentence of the format's documentation \<^verbatim>\<open>write_graphs\<close> raises \<^verbatim>\<open>IndexError\<close>
  instead: the nodes of the built graph are keyed by strings, so the root \<open>'0'\<close> is not equal
  to the integer 0 and is not skipped, and it has no incoming edge. The graph of the same
  sentence in the shape the docstring of \<^verbatim>\<open>gen_graphs\<close> describes is written back to the
  text of the file.
\<close>

theorem write_graphs_of_gen_graphs_fails:
  "snd (gen_graphs example_dataset False (File the_dog EOF)) = None \<and>
   write_graphs example_dataset True
     (map snd (fst (gen_graphs example_dataset False (File the_dog EOF)))) = Inl IndexError \<and>
   write_graphs example_dataset True [dog_graph] = Inr the_dog"
  by code_simp

text \<open>
  C7. A record whose id is not an integer is to be kept verbatim in the graph's attribute
  dict under its id string. For the multiword line \<open>3-4 gonna\<close> the builder stores the id
  string itself as the value, and the record's other fields are lost. \<^verbatim>\<open>write_graphs\<close>
  expects the record there: with the record under the key it writes the line \<open>3-4\<close> before
  the line of token 3, with the id string it raises the \<^verbatim>\<open>ConlluError\<close> of
  \<^verbatim>\<open>write_sentences\<close>.
\<close>

theorem gen_graphs_stores_id_string:
  "map (\<lambda>(name, g). graph g) (fst (gen_graphs example_dataset False (File gonna EOF))) =
     [[(''3-4'', S ''3-4'')]] \<and>
   write_graphs example_dataset True [gonna_graph (S ''3-4'')] =
     Inl (ConlluError ''Sentences must be sequences of Word tuples'') \<and>
   write_graphs example_dataset True [gonna_graph (W word_gonna)] = Inr gonna"
  by code_simp

section \<open>Lines the parser rejects\<close>




section \<open>The errors of the sentence reader\<close>




text \<open>
  C10. A sentence is yielded only at a blank line: the number of sentences yielded is at
  most the number of blank lines. Lines after the last line break, a line feed or a
  carriage return, that hold no blank line and on which the loop body does not raise change
  neither what is yielded nor the error: the records of an unterminated last sentence are
  dropped silently.
\<close>

theorem unterminated_sentence_discarded:
  "text = [] \<or> last text = LF \<or> (last text = CR \<and> (rest = [] \<or> hd rest \<noteq> LF)) \<Longrightarrow>
   list_all (\<lambda>l. strip l \<noteq> [] \<and> \<not> bad_line self (strip l)) (file_lines rest) \<Longrightarrow>
   gen_sentences self inc (File (text @ rest) EOF) = gen_sentences self inc (File text EOF) \<and>
   length (fst (gen_sentences self inc (File text EOF))) \<le>
     length (filter (\<lambda>l. strip l = []) (file_lines text))"
  by (simp add: gen_sentences_def file_lines_append read_lines_append_tail
        length_fst_read_lines)

theorem unterminated_sentence_discarded_witness:
  "last the_dog = LF \<and>
   list_all (\<lambda>l. strip l \<noteq> [] \<and> \<not> bad_line example_dataset (strip l)) (file_lines line_the) \<and>
   gen_sentences example_dataset False (File (the_dog @ line_the) EOF) =
     gen_sentences example_dataset False (File the_dog EOF) \<and>
   map fst (fst (gen_sentences example_dataset False (File the_dog EOF))) = [''0_0'']"
proof -
  have a: "last the_dog = LF" by code_simp
  have b: "list_all (\<lambda>l. strip l \<noteq> [] \<and> \<not> bad_line example_dataset (strip l))
             (file_lines line_the)" by code_simp
  have c: "map fst (fst (gen_sentences example_dataset False (File the_dog EOF))) = [''0_0'']"
    by code_simp
  from a have a': "the_dog = [] \<or> last the_dog = LF \<or>
      (last the_dog = CR \<and> (line_the = [] \<or> hd line_the \<noteq> LF))" by simp
  from unterminated_sentence_discarded[OF a' b, of False]
  have d: "gen_sentences example_dataset False (File (the_dog @ line_the) EOF) =
     gen_sentences example_dataset False (File the_dog EOF)" by (rule conjunct1)
  show ?thesis by (intro conjI) (rule a, rule b, rule d, rule c)
qed

section \<open>The sentence of a graph\<close>

lemma node_word_ID: "node_word g key data = Inr w \<Longrightarrow> ID w = key"
  by (auto simp: node_word_def split: list.splits if_splits option.splits)

lemma node_word_HEAD: "node_word g key data = Inr w \<Longrightarrow> HEAD w = fst (hd (in_edges g key))"
  by (auto simp: node_word_def split: list.splits if_splits option.splits)

lemma node_words_IDs:
  "node_words g ns = Inr ws \<Longrightarrow> map ID ws = filter (\<lambda>key. key \<noteq> PInt 0) (map fst ns)"
proof (induction ns arbitrary: ws)
  case Nil
  then show ?case by simp
next
  case (Cons n ns)
  obtain key data where n: "n = (key, data)" by (cases n)
  show ?case
  proof (cases "key = PInt 0")
    case True
    with Cons n show ?thesis by simp
  next
    case False
    with Cons.prems n obtain w ws' where
      w: "node_word g key data = Inr w" and ws': "node_words g ns = Inr ws'" and
      ws: "ws = w # ws'"
      by (auto split: sum.splits)
    from Cons.IH[OF ws'] node_word_ID[OF w] False n ws show ?thesis by simp
  qed
qed

lemma node_words_HEADs:
  "node_words g ns = Inr ws \<Longrightarrow>
     map HEAD ws =
       map (\<lambda>key. fst (hd (in_edges g key))) (filter (\<lambda>key. key \<noteq> PInt 0) (map fst ns))"
proof (induction ns arbitrary: ws)
  case Nil
  then show ?case by simp
next
  case (Cons n ns)
  obtain key data where n: "n = (key, data)" by (cases n)
  show ?case
  proof (cases "key = PInt 0")
    case True
    with Cons n show ?thesis by simp
  next
    case False
    with Cons.prems n obtain w ws' where
      w: "node_word g key data = Inr w" and ws': "node_words g ns = Inr ws'" and
      ws: "ws = w # ws'"
      by (auto split: sum.splits)
    from Cons.IH[OF ws'] node_word_HEAD[OF w] False n ws show ?thesis by simp
  qed
qed

lemma sorted_filter_ints:
  "sorted ks \<Longrightarrow> sorted (filter (\<lambda>k. k \<noteq> (0::int)) ks)"
  by (rule sorted_filter[where f = "\<lambda>x. x", simplified])

lemma filter_map_PInt:
  "filter (\<lambda>key. key \<noteq> PInt 0) (map PInt ks) = map PInt (filter (\<lambda>k. k \<noteq> 0) ks)"
  by (induction ks) auto

lemma node_words_result:
  assumes "list_all (\<lambda>(key, data). key = PInt 0 \<or> in_edges g key \<noteq> [] \<and> n_FEATS data \<noteq> None) ns"
  shows "if list_all (\<lambda>(key, data). key = PInt 0 \<or>
                n_FORM data \<noteq> None \<and> n_LEMMA data \<noteq> None \<and> n_UPOSTAG data \<noteq> None) ns
         then \<not> isl (node_words g ns)
         else node_words g ns = Inl (ConlluError ''Graphs do not conform to the spec'')"
  using assms
proof (induction ns)
  case Nil
  show ?case by simp
next
  case (Cons n ns)
  obtain key data where n: "n = (key, data)" by (cases n)
  show ?case
  proof (cases "key = PInt 0")
    case True
    with Cons n show ?thesis by simp
  next
    case False
    with Cons.prems n obtain e es f where
      e: "in_edges g key = e # es" and f: "n_FEATS data = Some f"
      by (cases "in_edges g key") auto
    from Cons have IH: "if list_all (\<lambda>(key, data). key = PInt 0 \<or>
                n_FORM data \<noteq> None \<and> n_LEMMA data \<noteq> None \<and> n_UPOSTAG data \<noteq> None) ns
         then \<not> isl (node_words g ns)
         else node_words g ns = Inl (ConlluError ''Graphs do not conform to the spec'')"
      by simp
    show ?thesis
    proof (cases "n_FORM data \<noteq> None \<and> n_LEMMA data \<noteq> None \<and> n_UPOSTAG data \<noteq> None")
      case False
      with \<open>key \<noteq> PInt 0\<close> n e show ?thesis
        by (auto simp: node_word_def)
    next
      case True
      with e f obtain w where w: "node_word g key data = Inr w"
        by (auto simp: node_word_def)
      with True \<open>key \<noteq> PInt 0\<close> n IH show ?thesis
        by (cases "node_words g ns") (auto split: if_splits)
    qed
  qed
qed

text \<open>
  C9, as stated: the word records of an accepted graph come out in ascending order of their
  ids. The serializer does not sort: a graph whose node 2 was added before its node 1 is
  written with the record of node 2 first.
\<close>

theorem records_not_ascending:
  "write_graphs example_dataset True [dog_first] =
     Inr (line_dog @ [LF] @ line_the @ [LF] @ [LF]) \<and>
   map_sum id (map ID) (node_words dog_first (nodes dog_first)) = Inr [PInt 2, PInt 1]"
  by code_simp

text \<open>
  C9, amended: for every graph the serializer accepts, the word records before splicing are
  emitted in the order of the graph's node table, the order in which the nodes were added,
  with the root (the integer key 0) left out; they are in ascending order of their ids
  whenever the node table is.
\<close>

theorem records_in_node_order:
  "node_words g (nodes g) = Inr ws \<Longrightarrow>
   map ID ws = filter (\<lambda>key. key \<noteq> PInt 0) (map fst (nodes g)) \<and>
   (\<forall>ks. map fst (nodes g) = map PInt ks \<and> sorted ks \<longrightarrow>
      map ID ws = map PInt (filter (\<lambda>k. k \<noteq> 0) ks) \<and> sorted (filter (\<lambda>k. k \<noteq> 0) ks))"
  using node_words_IDs[of g "nodes g" ws]
  by (auto simp: filter_map_PInt sorted_filter_ints)

theorem records_in_node_order_witness:
  "node_words dog_graph (nodes dog_graph) =
     Inr [\<lparr>ID = PInt 1, FORM = ''The'', LEMMA = ''the'', UPOSTAG = ''DET'', XPOSTAG = ''_'',
           FEATS = [], HEAD = PInt 2, DEPREL = ''det'', DEPS = ''_'', MISC = ''_''\<rparr>,
          \<lparr>ID = PInt 2, FORM = ''dog'', LEMMA = ''dog'', UPOSTAG = ''NOUN'', XPOSTAG = ''_'',
           FEATS = [], HEAD = PInt 0, DEPREL = ''root'', DEPS = ''_'', MISC = ''_''\<rparr>] \<and>
   map fst (nodes dog_graph) = map PInt [0, 1, 2] \<and>
   map ID [\<lparr>ID = PInt 1, FORM = ''The'', LEMMA = ''the'', UPOSTAG = ''DET'', XPOSTAG = ''_'',
           FEATS = [], HEAD = PInt 2, DEPREL = ''det'', DEPS = ''_'', MISC = ''_''\<rparr>,
          \<lparr>ID = PInt 2, FORM = ''dog'', LEMMA = ''dog'', UPOSTAG = ''NOUN'', XPOSTAG = ''_'',
           FEATS = [], HEAD = PInt 0, DEPREL = ''root'', DEPS = ''_'', MISC = ''_''\<rparr>] =
     map PInt (filter (\<lambda>k. k \<noteq> 0) [0, 1, 2])"
proof -
  let ?ws = "[\<lparr>ID = PInt 1, FORM = ''The'', LEMMA = ''the'', UPOSTAG = ''DET'', XPOSTAG = ''_'',
           FEATS = [], HEAD = PInt 2, DEPREL = ''det'', DEPS = ''_'', MISC = ''_''\<rparr>,
          \<lparr>ID = PInt 2, FORM = ''dog'', LEMMA = ''dog'', UPOSTAG = ''NOUN'', XPOSTAG = ''_'',
           FEATS = [], HEAD = PInt 0, DEPREL = ''root'', DEPS = ''_'', MISC = ''_''\<rparr>]"
  have a: "node_words dog_graph (nodes dog_graph) = Inr ?ws" by code_simp
  have b: "map fst (nodes dog_graph) = map PInt [0, 1, 2]" by code_simp
  have c: "sorted [0, 1, 2 :: int]" by simp
  from records_in_node_order[OF a] b c
  have "map ID ?ws = map PInt (filter (\<lambda>k. k \<noteq> 0) [0, 1, 2])" by blast
  with a b show ?thesis by blast
qed

text \<open>
  C3, as stated: serialization fails when a node other than the root has more than one
  incoming edge. The serializer takes the first incoming edge and never looks for a
  second: a graph whose node 1 has two is written, with the source of the first as head.
\<close>

theorem two_incoming_edges_accepted:
  "length (in_edges two_heads (PInt 1)) = 2 \<and>
   write_graphs example_dataset True [two_heads] = Inr the_dog"
  by code_simp

text \<open>
  C3, amended: when every node of a graph other than the root has at least one incoming
  edge and a FEATS attribute, the serializer builds the word record of each such node from
  the node's first incoming edge, whose source becomes the head, whether or not the node
  has other incoming edges; building the records fails, with the \<^verbatim>\<open>ConlluError\<close>, exactly when
  one of FORM, LEMMA and UPOSTAG is absent from some node other than the root. The root,
  the node with the integer key 0, is under no such requirement and emits no word record.
\<close>

theorem serializer_required_shape:
  assumes "list_all (\<lambda>(key, data). key = PInt 0 \<or> in_edges g key \<noteq> [] \<and> n_FEATS data \<noteq> None)
             (nodes g)"
  shows "if list_all (\<lambda>(key, data). key = PInt 0 \<or>
                n_FORM data \<noteq> None \<and> n_LEMMA data \<noteq> None \<and> n_UPOSTAG data \<noteq> None) (nodes g)
         then \<exists>ws. node_words g (nodes g) = Inr ws \<and>
                map ID ws = filter (\<lambda>key. key \<noteq> PInt 0) (map fst (nodes g)) \<and>
                map HEAD ws = map (\<lambda>key. fst (hd (in_edges g key)))
                                (filter (\<lambda>key. key \<noteq> PInt 0) (map fst (nodes g)))
         else graph_sentence g = Inl (ConlluError ''Graphs do not conform to the spec'') \<and>
              write_graphs self writable [g] =
                Inl (ConlluError ''Graphs do not conform to the spec'')"
proof (cases "list_all (\<lambda>(key, data). key = PInt 0 \<or>
                n_FORM data \<noteq> None \<and> n_LEMMA data \<noteq> None \<and> n_UPOSTAG data \<noteq> None) (nodes g)")
  case True
  with node_words_result[OF assms] obtain ws where ws: "node_words g (nodes g) = Inr ws"
    by (cases "node_words g (nodes g)") auto
  with True node_words_IDs[OF ws] node_words_HEADs[OF ws] show ?thesis by simp
next
  case False
  with node_words_result[OF assms]
  have "node_words g (nodes g) = Inl (ConlluError ''Graphs do not conform to the spec'')"
    by simp
  with False show ?thesis
    by (simp add: graph_sentence_def write_graphs_def)
qed

theorem serializer_required_shape_witness:
  "list_all (\<lambda>(key, data). key = PInt 0 \<or> in_edges dog_graph key \<noteq> [] \<and> n_FEATS data \<noteq> None)
     (nodes dog_graph) \<and>
   (\<exists>ws. node_words dog_graph (nodes dog_graph) = Inr ws \<and> map HEAD ws = [PInt 2, PInt 0]) \<and>
   list_all (\<lambda>(key, data). key = PInt 0 \<or> in_edges no_lemma key \<noteq> [] \<and> n_FEATS data \<noteq> None)
     (nodes no_lemma) \<and>
   write_graphs example_dataset True [no_lemma] =
     Inl (ConlluError ''Graphs do not conform to the spec'')"
proof -
  have a: "list_all (\<lambda>(key, data). key = PInt 0 \<or> in_edges dog_graph key \<noteq> [] \<and> n_FEATS data \<noteq> None)
     (nodes dog_graph)" by code_simp
  have a': "list_all (\<lambda>(key, data). key = PInt 0 \<or>
                n_FORM data \<noteq> None \<and> n_LEMMA data \<noteq> None \<and> n_UPOSTAG data \<noteq> None)
     (nodes dog_graph)" by code_simp
  have a'': "map (\<lambda>key. fst (hd (in_edges dog_graph key)))
               (filter (\<lambda>key. key \<noteq> PInt 0) (map fst (nodes dog_graph))) = [PInt 2, PInt 0]"
    by code_simp
  have b: "list_all (\<lambda>(key, data). key = PInt 0 \<or> in_edges no_lemma key \<noteq> [] \<and> n_FEATS data \<noteq> None)
     (nodes no_lemma)" by code_simp
  have b': "\<not> list_all (\<lambda>(key, data). key = PInt 0 \<or>
                n_FORM data \<noteq> None \<and> n_LEMMA data \<noteq> None \<and> n_UPOSTAG data \<noteq> None)
     (nodes no_lemma)" by code_simp
  from serializer_required_shape[OF a, of example_dataset True] a' a''
  have 1: "\<exists>ws. node_words dog_graph (nodes dog_graph) = Inr ws \<and> map HEAD ws = [PInt 2, PInt 0]"
    by auto
  from serializer_required_shape[OF b, of example_dataset True] b'
  have 2: "write_graphs example_dataset True [no_lemma] =
     Inl (ConlluError ''Graphs do not conform to the spec'')"
    by simp
  from a 1 b 2 show ?thesis by blast
qed

section \<open>Reading what was written\<close>

lemma dict_of_acc:
  "distinct (map fst (acc @ items)) \<Longrightarrow>
     foldl (\<lambda>d (key, value). AList.update key value d) acc items = acc @ items"
proof (induction items arbitrary: acc)
  case Nil
  show ?case by simp
next
  case (Cons x items)
  obtain k v where x: "x = (k, v)" by (cases x)
  from Cons.prems x have "k \<notin> fst ` set acc" by auto
  then have "AList.update k v acc = acc @ [(k, v)]"
    by (induction acc) auto
  with Cons.IH[of "acc @ [(k, v)]"] Cons.prems x show ?case by simp
qed

lemma dict_of_distinct: "distinct (map fst items) \<Longrightarrow> dict_of items = items"
  using dict_of_acc[of "[]" items] by (simp add: dict_of_def)

lemma set_join: "set (join sep xs) \<subseteq> set sep \<union> \<Union> (set ` set xs)"
  by (induction sep xs rule: join.induct) auto

lemma split_key_value:
  "CHR ''='' \<notin> set k \<Longrightarrow> CHR ''='' \<notin> set v \<Longrightarrow> split (CHR ''='') (k @ ''='' @ v) = [k, v]"
  by (simp add: split_append split_notin)

lemma wf_value_text:
  assumes "finite value" "value \<noteq> {}" "\<forall>v\<in>value. feat_value v"
  shows "set (split (CHR '','') (join '','' (sorted_list_of_set value))) = value"
    and "set (join '','' (sorted_list_of_set value)) \<inter> {CHR ''='', CHR ''|'', TAB, LF, CR} = {}"
    and "split (CHR '','') (join '','' (sorted_list_of_set value)) = sorted_list_of_set value"
proof -
  let ?vs = "sorted_list_of_set value"
  from assms have ne: "?vs \<noteq> []" by simp
  from assms have vs: "set ?vs = value" by simp
  with assms have "\<forall>x\<in>set ?vs. CHR '','' \<notin> set x"
    by (auto simp: feat_value_def)
  with ne show sp: "split (CHR '','') (join '','' ?vs) = ?vs"
    by (rule split_join)
  with vs show "set (split (CHR '','') (join '','' ?vs)) = value" by simp
  have "set (join '','' ?vs) \<subseteq> set '','' \<union> \<Union> (set ` set ?vs)" by (rule set_join)
  with vs assms show "set (join '','' ?vs) \<inter> {CHR ''='', CHR ''|'', TAB, LF, CR} = {}"
    by (auto simp: feat_value_def TAB_def LF_def CR_def)
qed

lemma format_feat_chars:
  assumes "wf_item x"
  shows "CHR ''|'' \<notin> set (format_feat x)" and "TAB \<notin> set (format_feat x)"
    and "LF \<notin> set (format_feat x)" and "CR \<notin> set (format_feat x)"
proof -
  obtain k v where x: "x = (k, v)" by (cases x)
  with assms have k: "feat_key k" and v: "finite v" "v \<noteq> {}" "\<forall>a\<in>v. feat_value a"
    by simp_all
  from wf_value_text(2)[OF v] k x
  have "set (format_feat x) \<inter> {CHR ''|'', TAB, LF, CR} = {}"
    by (auto simp: feat_key_def TAB_def LF_def CR_def)
  then show "CHR ''|'' \<notin> set (format_feat x)" and "TAB \<notin> set (format_feat x)"
    and "LF \<notin> set (format_feat x)" and "CR \<notin> set (format_feat x)"
    by auto
qed

lemma feats_items_format:
  "list_all wf_item g \<Longrightarrow> feats_items (map format_feat g) = Some g"
proof (induction g)
  case Nil
  show ?case by simp
next
  case (Cons x g)
  obtain k v where x: "x = (k, v)" by (cases x)
  with Cons.prems have k: "feat_key k" and v: "finite v" "v \<noteq> {}" "\<forall>a\<in>v. feat_value a"
    by simp_all
  from k have k': "CHR ''='' \<notin> set k" by (auto simp: feat_key_def)
  from wf_value_text(2)[OF v] have v': "CHR ''='' \<notin> set (join '','' (sorted_list_of_set v))"
    by auto
  have "split (CHR ''='') (format_feat x) = [k, join '','' (sorted_list_of_set v)]"
    using split_key_value[OF k' v'] x by simp
  with Cons wf_value_text(1)[OF v] x show ?case by simp
qed

lemma format_feats_not_placeholder:
  assumes "f \<noteq> []"
  shows "format_feats f \<noteq> ''_''" and "format_feats f \<noteq> []"
proof -
  from assms have "sort_key fst f \<noteq> []"
    by (metis length_sort length_0_conv)
  then obtain x g where g: "sort_key fst f = x # g" by (cases "sort_key fst f") auto
  obtain k v where x: "x = (k, v)" by (cases x)
  have "CHR ''='' \<in> set (format_feats f)"
  proof (cases g)
    case Nil
    with g x assms show ?thesis by (simp add: format_feats_def)
  next
    case (Cons y g')
    with g x assms show ?thesis by (simp add: format_feats_def)
  qed
  then show "format_feats f \<noteq> ''_''" and "format_feats f \<noteq> []" by auto
qed

lemma wf_feats_items: "wf_feats f \<Longrightarrow> list_all wf_item f"
  by (simp add: wf_feats_def)

lemma split_format_feat:
  assumes "wf_item (key, value)"
  shows "\<exists>vs. sorted vs \<and> distinct vs \<and> set vs = value \<and>
           split (CHR ''='') (format_feat (key, value)) = [key, join '','' vs] \<and>
           split (CHR '','') (join '','' vs) = vs"
proof -
  from assms have k: "feat_key key" and v: "finite value" "value \<noteq> {}" "\<forall>a\<in>value. feat_value a"
    by simp_all
  let ?vs = "sorted_list_of_set value"
  from k have k': "CHR ''='' \<notin> set key" by (auto simp: feat_key_def)
  from wf_value_text(2)[OF v] have v': "CHR ''='' \<notin> set (join '','' ?vs)" by auto
  have "split (CHR ''='') (format_feat (key, value)) = [key, join '','' ?vs]"
    using split_key_value[OF k' v'] by simp
  moreover have "sorted ?vs" "distinct ?vs" by simp_all
  moreover from v have "set ?vs = value" by simp
  ultimately show ?thesis using wf_value_text(3)[OF v] by blast
qed

lemma split_format_feats:
  assumes "wf_feats f" "f \<noteq> []"
  shows "split (CHR ''|'') (format_feats f) = map format_feat (sort_key fst f)"
proof -
  let ?g = "sort_key fst f"
  from wf_feats_items[OF assms(1)] have items: "list_all wf_item ?g"
    by (simp add: list_all_iff)
  from assms(2) have "?g \<noteq> []"
    by (metis length_sort length_0_conv)
  then have ne: "map format_feat ?g \<noteq> []" by simp
  from items have "\<forall>x\<in>set ?g. CHR ''|'' \<notin> set (format_feat x)"
    by (simp add: list_all_iff format_feat_chars(1))
  then have "\<forall>x\<in>set (map format_feat ?g). CHR ''|'' \<notin> set x" by simp
  with ne have "split (CHR ''|'') (join ''|'' (map format_feat ?g)) = map format_feat ?g"
    by (rule split_join)
  with assms(2) show ?thesis by (simp add: format_feats_def)
qed

lemma read_format_feats:
  assumes "wf_feats f"
  shows "read_feats (format_feats f) = Some (sort_key fst f)"
proof (cases "f = []")
  case True
  then show ?thesis by (simp add: read_feats_def format_feats_def)
next
  case False
  let ?g = "sort_key fst f"
  from wf_feats_items[OF assms] have items: "list_all wf_item ?g"
    by (simp add: list_all_iff)
  from assms have "distinct (map fst f)" by (simp add: wf_feats_def)
  then have dist: "distinct (map fst ?g)"
    by (simp add: distinct_map)
  from False have "?g \<noteq> []"
    by (metis length_sort length_0_conv)
  then have ne: "map format_feat ?g \<noteq> []" by simp
  from items have "\<forall>x\<in>set ?g. CHR ''|'' \<notin> set (format_feat x)"
    by (simp add: list_all_iff format_feat_chars(1))
  then have "\<forall>x\<in>set (map format_feat ?g). CHR ''|'' \<notin> set x" by simp
  with ne have sp: "split (CHR ''|'') (join ''|'' (map format_feat ?g)) = map format_feat ?g"
    by (rule split_join)
  from False have ftext: "format_feats f = join ''|'' (map format_feat ?g)"
    by (simp add: format_feats_def)
  have "read_feats (format_feats f) =
          map_option dict_of (feats_items (split (CHR ''|'') (format_feats f)))"
    using format_feats_not_placeholder(1)[OF False] by (simp only: read_feats_def if_False)
  also have "\<dots> = map_option dict_of (feats_items (map format_feat ?g))"
    by (simp only: ftext sp)
  also have "\<dots> = Some (dict_of ?g)"
    by (simp only: feats_items_format[OF items] option.map)
  also have "\<dots> = Some ?g"
    by (simp only: dict_of_distinct[OF dist])
  finally show ?thesis .
qed

lemma str_int_chars: "list_all (\<lambda>c. is_digit c \<or> c = CHR ''-'') (str_int n)"
  using digits_all_decimal[of "nat n"] digits_all_decimal[of "nat (- n)"]
  by (auto simp: str_int_def list_all_iff is_decimal_digit)

lemma str_int_not_Nil: "str_int n \<noteq> []"
  by (simp add: str_int_def digits_not_Nil)

lemma id_char_plain:
  "is_digit c \<or> c = CHR ''-'' \<or> c = CHR ''.'' \<Longrightarrow>
     c \<noteq> TAB \<and> c \<noteq> LF \<and> c \<noteq> CR \<and> c \<noteq> CHR ''#'' \<and> c \<noteq> CHR ''_'' \<and> \<not> is_space c"
  by (auto simp: is_digit_def is_decimal_def is_space_def TAB_def LF_def CR_def)

lemma id_chars_plain:
  "s \<noteq> [] \<Longrightarrow> list_all (\<lambda>c. is_digit c \<or> c = CHR ''-'' \<or> c = CHR ''.'') s \<Longrightarrow> plain s"
  using id_char_plain by (auto simp: plain_def list_all_iff)

lemma id_chars_hd:
  "s \<noteq> [] \<Longrightarrow> list_all (\<lambda>c. is_digit c \<or> c = CHR ''-'' \<or> c = CHR ''.'') s \<Longrightarrow>
     \<not> is_space (hd s) \<and> hd s \<noteq> CHR ''#''"
  using id_char_plain[of "hd s"] by (cases s) auto

lemma str_int_id_chars:
  "list_all (\<lambda>c. is_digit c \<or> c = CHR ''-'' \<or> c = CHR ''.'') (str_int n)"
  using str_int_chars[of n] by (auto simp: list_all_iff)

lemma py_str_id_chars:
  "wf_id a \<Longrightarrow> py_str a \<noteq> [] \<and>
     list_all (\<lambda>c. is_digit c \<or> c = CHR ''-'' \<or> c = CHR ''.'') (py_str a)"
  by (cases a) (simp_all add: str_int_not_Nil str_int_id_chars)

lemma str_int_not_placeholder: "str_int n \<noteq> ''_''"
proof
  assume "str_int n = ''_''"
  with str_int_id_chars[of n] show False
    by (simp add: is_digit_def is_decimal_def)
qed

lemma plain_py_str_head: "wf_head a \<Longrightarrow> plain (py_str a)"
proof (cases a)
  case (PInt n)
  then show ?thesis
    using id_chars_plain[OF str_int_not_Nil str_int_id_chars, of n] by simp
next
  case (PStr s)
  assume "wf_head a"
  with PStr show ?thesis by (simp add: plain_def TAB_def LF_def CR_def)
qed

lemma join_notin: "c \<notin> set sep \<Longrightarrow> \<forall>x\<in>set xs. c \<notin> set x \<Longrightarrow> c \<notin> set (join sep xs)"
  by (induction sep xs rule: join.induct) auto

lemma plain_format_feats: "wf_feats f \<Longrightarrow> plain (format_feats f)"
proof (cases "f = []")
  case True
  then show ?thesis by (simp add: format_feats_def plain_def TAB_def LF_def CR_def)
next
  case False
  assume wf: "wf_feats f"
  let ?g = "sort_key fst f"
  from wf_feats_items[OF wf] have items: "\<forall>x\<in>set ?g. wf_item x"
    by (simp add: list_all_iff)
  have "TAB \<notin> set (join ''|'' (map format_feat ?g))"
    by (rule join_notin) (simp_all add: TAB_def[symmetric] items format_feat_chars(2), simp add: TAB_def)
  moreover have "LF \<notin> set (join ''|'' (map format_feat ?g))"
    by (rule join_notin) (simp_all add: items format_feat_chars(3), simp add: LF_def)
  moreover have "CR \<notin> set (join ''|'' (map format_feat ?g))"
    by (rule join_notin) (simp_all add: items format_feat_chars(4), simp add: CR_def)
  ultimately show ?thesis
    using False format_feats_not_placeholder(2)[OF False]
    by (simp add: plain_def format_feats_def)
qed

lemma plain_fields: "wf_word tags w \<Longrightarrow> list_all plain (word_fields w)"
  using py_str_id_chars[of "ID w"] id_chars_plain[of "py_str (ID w)"]
  by (simp add: wf_word_def word_fields_def plain_py_str_head plain_format_feats)

lemma split_format_word: "wf_word tags w \<Longrightarrow> split TAB (format_word w) = word_fields w"
proof -
  assume "wf_word tags w"
  then have "\<forall>x\<in>set (word_fields w). TAB \<notin> set x"
    using plain_fields[of tags w] by (simp add: list_all_iff plain_def)
  moreover have "word_fields w \<noteq> []" by (simp add: word_fields_def)
  ultimately show ?thesis
    unfolding format_word_def by (intro split_join)
qed

lemma read_id_py_str: "wf_id a \<Longrightarrow> read_id (py_str a) = Inr a"
proof (cases a)
  case (PInt n)
  assume "wf_id a"
  with PInt have "0 \<le> n" by simp
  then have "py_str a = digits (nat n)" using PInt by (simp add: str_int_def)
  with \<open>0 \<le> n\<close> PInt show ?thesis
    by (simp add: read_id_def isdigit_digits py_int_digits)
next
  case (PStr s)
  assume "wf_id a"
  with PStr show ?thesis by (simp add: read_id_def)
qed

lemma read_head_py_str: "wf_head a \<Longrightarrow> read_head (py_str a) = Some a"
  by (cases a) (simp_all add: read_head_def str_int_not_placeholder py_int_str_int)

lemma read_word_ten:
  "read_word tags [f0, f1, f2, f3, f4, f5, f6, f7, f8, f9] =
     (if \<not> list_all (\<lambda>item. item \<noteq> []) [f0, f1, f2, f3, f4, f5, f6, f7, f8, f9]
      then Inl AssertionError
      else
        (case read_id f0 of
           Inl e \<Rightarrow> Inl e
         | Inr ident \<Rightarrow>
             if \<not> (f3 \<in> set tags \<or> f3 = ''_'') then Inl AssertionError
             else
               (case read_feats f5 of
                  None \<Rightarrow> Inl ValueError
                | Some feats \<Rightarrow>
                    (case read_head f6 of
                       None \<Rightarrow> Inl ValueError
                     | Some head \<Rightarrow>
                         Inr \<lparr>ID = ident, FORM = f1, LEMMA = f2, UPOSTAG = f3, XPOSTAG = f4,
                              FEATS = feats, HEAD = head, DEPREL = f7, DEPS = f8,
                              MISC = f9\<rparr>))))"
  by (auto simp: read_word_def split: sum.splits option.splits)

lemma canon_fields:
  "canon w = \<lparr>ID = ID w, FORM = FORM w, LEMMA = LEMMA w, UPOSTAG = UPOSTAG w,
              XPOSTAG = XPOSTAG w, FEATS = sort_key fst (FEATS w), HEAD = HEAD w,
              DEPREL = DEPREL w, DEPS = DEPS w, MISC = MISC w\<rparr>"
  by (cases w) (simp add: canon_def)

lemma read_fields:
  assumes "wf_word tags w"
  shows "read_word tags (word_fields w) = Inr (canon w)"
proof -
  from plain_fields[OF assms] have ne: "list_all (\<lambda>item. item \<noteq> []) (word_fields w)"
    by (simp add: list_all_iff plain_def)
  from assms have a: "read_id (py_str (ID w)) = Inr (ID w)"
    by (simp add: wf_word_def read_id_py_str)
  from assms have b: "read_feats (format_feats (FEATS w)) = Some (sort_key fst (FEATS w))"
    by (simp add: wf_word_def read_format_feats)
  from assms have c: "read_head (py_str (HEAD w)) = Some (HEAD w)"
    by (simp add: wf_word_def read_head_py_str)
  from assms have d: "UPOSTAG w \<in> set tags \<or> UPOSTAG w = ''_''"
    by (simp add: wf_word_def)
  from ne have ne': "list_all (\<lambda>item. item \<noteq> [])
     [py_str (ID w), FORM w, LEMMA w, UPOSTAG w, XPOSTAG w, format_feats (FEATS w),
      py_str (HEAD w), DEPREL w, DEPS w, MISC w]"
    by (simp only: word_fields_def)
  show ?thesis
    unfolding word_fields_def read_word_ten canon_fields using ne' d
    by (simp only: a b c if_False if_True not_not sum.case option.case simp_thms)
qed

lemma read_format_word:
  "wf_word tags w \<Longrightarrow> read_word tags (split TAB (format_word w)) = Inr (canon w)"
  by (simp add: split_format_word read_fields)

lemma hd_join: "x \<noteq> [] \<Longrightarrow> hd (join sep (x # xs)) = hd x"
  by (cases xs) auto

lemma join_not_Nil: "xs \<noteq> [] \<Longrightarrow> last xs \<noteq> [] \<Longrightarrow> join sep xs \<noteq> []"
  by (induction sep xs rule: join.induct) auto

lemma last_join: "xs \<noteq> [] \<Longrightarrow> last xs \<noteq> [] \<Longrightarrow> last (join sep xs) = last (last xs)"
proof (induction sep xs rule: join.induct)
  case (3 sep x y ys)
  then have "join sep (y # ys) \<noteq> []" by (intro join_not_Nil) simp_all
  with 3 show ?case by simp
qed simp_all

lemma format_word_line:
  assumes "wf_word tags w"
  shows "format_word w \<noteq> []" and "LF \<notin> set (format_word w)" and "CR \<notin> set (format_word w)"
    and "\<not> is_space (hd (format_word w))" and "hd (format_word w) \<noteq> CHR ''#''"
    and "\<not> is_space (last (format_word w))"
proof -
  from plain_fields[OF assms] have pl: "\<forall>x\<in>set (word_fields w). plain x"
    by (simp add: list_all_iff)
  have l: "last (word_fields w) = MISC w" by (simp add: word_fields_def)
  have ne: "word_fields w \<noteq> []" by (simp add: word_fields_def)
  from assms have misc: "MISC w \<noteq> []" "\<not> is_space (last (MISC w))"
    by (simp_all add: wf_word_def plain_def)
  from ne l misc show "format_word w \<noteq> []"
    by (simp add: format_word_def join_not_Nil)
  show "LF \<notin> set (format_word w)"
    unfolding format_word_def using pl
    by (intro join_notin) (simp_all add: plain_def TAB_def LF_def)
  show "CR \<notin> set (format_word w)"
    unfolding format_word_def using pl
    by (intro join_notin) (simp_all add: plain_def TAB_def CR_def)
  from assms have idc: "py_str (ID w) \<noteq> []"
    "list_all (\<lambda>c. is_digit c \<or> c = CHR ''-'' \<or> c = CHR ''.'') (py_str (ID w))"
    using py_str_id_chars[of "ID w"] by (simp_all add: wf_word_def)
  have "hd (format_word w) = hd (py_str (ID w))"
    using idc(1) by (simp add: format_word_def word_fields_def hd_join)
  with id_chars_hd[OF idc]
  show "\<not> is_space (hd (format_word w))" and "hd (format_word w) \<noteq> CHR ''#''"
    by simp_all
  from ne l misc show "\<not> is_space (last (format_word w))"
    by (simp add: format_word_def last_join)
qed

lemma strip_line:
  assumes "l \<noteq> []" "\<not> is_space (hd l)" "\<not> is_space (last l)"
  shows "strip (l @ [LF]) = l"
proof -
  from assms have "dropWhile is_space (l @ [LF]) = l @ [LF]"
    by (cases l) auto
  moreover have "is_space LF" by (simp add: is_space_def LF_def)
  moreover from assms have "dropWhile is_space (rev l) = rev l"
    by (cases "rev l") (auto simp: last_rev[symmetric] simp del: last_rev)
  ultimately show ?thesis by (simp add: strip_def)
qed

lemma strip_blank: "strip [LF] = []"
  by (simp add: strip_def is_space_def LF_def)

lemma file_lines_line:
  "LF \<notin> set l \<Longrightarrow> CR \<notin> set l \<Longrightarrow> file_lines (l @ LF # rest) = (l @ [LF]) # file_lines rest"
  by (induction l) auto

lemma join_lines: "join [LF] (xs @ [[], []]) = concat (map (\<lambda>x. x @ [LF]) xs) @ [LF]"
proof (induction xs)
  case Nil
  show ?case by simp
next
  case (Cons x xs)
  then show ?case by (cases xs) auto
qed

lemma format_sentence_lines:
  "format_sentence s = concat (map (\<lambda>w. format_word w @ [LF]) s) @ [LF]"
  by (simp add: format_sentence_def join_lines map_concat comp_def)

lemma file_lines_words:
  "list_all (wf_word tags) s \<Longrightarrow>
     file_lines (concat (map (\<lambda>w. format_word w @ [LF]) s) @ rest) =
       map (\<lambda>w. format_word w @ [LF]) s @ file_lines rest"
proof (induction s)
  case Nil
  show ?case by simp
next
  case (Cons w s)
  then have "wf_word tags w" by simp
  from format_word_line(2,3)[OF this] Cons show ?case
    by (simp add: file_lines_line)
qed

lemma file_lines_sentence:
  "list_all (wf_word tags) s \<Longrightarrow>
     file_lines (format_sentence s @ rest) =
       map (\<lambda>w. format_word w @ [LF]) s @ [LF] # file_lines rest"
  using file_lines_words[of tags s "LF # rest"]
  by (simp add: format_sentence_lines)

lemma write_all_words: "write_all (map (map W) sents) = Inr (concat (map format_sentence sents))"
proof (induction sents)
  case Nil
  show ?case by simp
next
  case (Cons s sents)
  have "list_all is_Word (map W s)" by (simp add: list_all_iff)
  moreover have "map the_Word (map W s) = s" by (simp add: comp_def)
  ultimately show ?case using Cons by simp
qed

lemma ID_canon: "ID (canon w) = ID w"
  by (simp add: canon_def)

lemma read_line_word:
  assumes "wf_word (POS_TAGS self) w"
  shows "read_line self inc st (format_word w) =
           Inr (if inc \<or> is_int (ID w) then st\<lparr>sent := sent st @ [canon w]\<rparr> else st, None)"
proof -
  from format_word_line(1,5)[OF assms]
  have "\<not> startswith (format_word w) ''#''"
    by (cases "format_word w") (auto simp: startswith_def)
  with format_word_line(1)[OF assms] read_format_word[OF assms] show ?thesis
    by (simp add: read_line_def ID_canon)
qed

lemma read_lines_words:
  "list_all (wf_word (POS_TAGS self)) s \<Longrightarrow>
     read_lines self inc EOF k st (map (\<lambda>w. format_word w @ [LF]) s @ ls) =
       read_lines self inc EOF (k + length s)
         (st\<lparr>sent := sent st @ map canon (filter (\<lambda>w. inc \<or> is_int (ID w)) s)\<rparr>) ls"
proof (induction s arbitrary: k st)
  case Nil
  show ?case by simp
next
  case (Cons w s)
  then have wf: "wf_word (POS_TAGS self) w" and rest: "list_all (wf_word (POS_TAGS self)) s"
    by simp_all
  have st: "strip (format_word w @ [LF]) = format_word w"
    using format_word_line(1,4,6)[OF wf] by (rule strip_line)
  show ?case
  proof (cases "inc \<or> is_int (ID w)")
    case True
    with Cons.IH[OF rest, of "Suc k" "st\<lparr>sent := sent st @ [canon w]\<rparr>"] st read_line_word[OF wf, of inc st]
    show ?thesis by simp
  next
    case False
    with Cons.IH[OF rest, of "Suc k" st] st read_line_word[OF wf, of inc st]
    show ?thesis by simp
  qed
qed

lemma read_lines_blank:
  "read_lines self inc EOF k st ([LF] # ls) =
     (case read_lines self inc EOF (Suc k)
             (st\<lparr>sent := [],
                 doc_id := (if doc_id st = PStr [] then PInt 0 else doc_id st),
                 sent_id := (if sent_id st = PStr [] then PInt (sentence_counter st) else sent_id st),
                 sentence_counter := sentence_counter st + 1\<rparr>) ls of
        (ys, err) \<Rightarrow>
          ((py_str (if doc_id st = PStr [] then PInt 0 else doc_id st) @ ''_'' @
            py_str (if sent_id st = PStr [] then PInt (sentence_counter st) else sent_id st),
            sent st) # ys, err))"
  by (simp add: strip_blank read_line_def startswith_def Let_def)

lemma read_lines_written:
  assumes "list_all (list_all (wf_word (POS_TAGS self))) sents"
  shows "map snd (fst (read_lines self inc EOF k st (file_lines (concat (map format_sentence sents))))) =
           (case sents of [] \<Rightarrow> []
            | s # sents' \<Rightarrow>
                (sent st @ map canon (filter (\<lambda>w. inc \<or> is_int (ID w)) s)) #
                map (\<lambda>s. map canon (filter (\<lambda>w. inc \<or> is_int (ID w)) s)) sents') \<and>
         snd (read_lines self inc EOF k st (file_lines (concat (map format_sentence sents)))) = None"
  using assms
proof (induction sents arbitrary: k st)
  case Nil
  show ?case by simp
next
  case (Cons s sents)
  then have wf: "list_all (wf_word (POS_TAGS self)) s"
    and rest: "list_all (list_all (wf_word (POS_TAGS self))) sents"
    by simp_all
  let ?st1 = "st\<lparr>sent := sent st @ map canon (filter (\<lambda>w. inc \<or> is_int (ID w)) s)\<rparr>"
  let ?st2 = "?st1\<lparr>sent := [],
                 doc_id := (if doc_id ?st1 = PStr [] then PInt 0 else doc_id ?st1),
                 sent_id := (if sent_id ?st1 = PStr [] then PInt (sentence_counter ?st1) else sent_id ?st1),
                 sentence_counter := sentence_counter ?st1 + 1\<rparr>"
  let ?rest = "file_lines (concat (map format_sentence sents))"
  have "read_lines self inc EOF k st (file_lines (concat (map format_sentence (s # sents)))) =
        read_lines self inc EOF (k + length s) ?st1 ([LF] # ?rest)"
    using file_lines_sentence[OF wf, of "concat (map format_sentence sents)"]
      read_lines_words[OF wf, of inc k st "[LF] # ?rest"]
    by simp
  moreover obtain ys err where r: "read_lines self inc EOF (Suc (k + length s)) ?st2 ?rest = (ys, err)"
    by (cases "read_lines self inc EOF (Suc (k + length s)) ?st2 ?rest")
  moreover from Cons.IH[OF rest, of "Suc (k + length s)" ?st2] r
  have "map snd ys = map (\<lambda>s. map canon (filter (\<lambda>w. inc \<or> is_int (ID w)) s)) sents" and "err = None"
    by (auto split: list.splits)
  ultimately show ?case
    using read_lines_blank[of self inc "k + length s" ?st1 ?rest]
    by simp
qed

lemma gen_sentences_written:
  assumes "list_all (list_all (wf_word (POS_TAGS self))) sents"
  shows "write_sentences self True (map (map W) sents) = Inr (concat (map format_sentence sents))"
    and "map snd (fst (gen_sentences self inc (File (concat (map format_sentence sents)) EOF))) =
           map (\<lambda>s. map canon (filter (\<lambda>w. inc \<or> is_int (ID w)) s)) sents"
    and "snd (gen_sentences self inc (File (concat (map format_sentence sents)) EOF)) = None"
  using read_lines_written[OF assms, of inc 0 reader0]
  by (auto simp: write_sentences_def write_all_words gen_sentences_def reader0_def
           split: list.splits)

section \<open>What the reader yields is well formed\<close>

lemma file_lines_shape:
  "l \<in> set (file_lines text) \<Longrightarrow>
     \<exists>body. (l = body @ [LF] \<or> l = body) \<and> LF \<notin> set body \<and> CR \<notin> set body"
proof (induction "text" arbitrary: l)
  case Nil
  then show ?case by simp
next
  case (Cons c cs)
  show ?case
  proof (cases "c = LF \<or> c = CR")
    case True
    with Cons.prems have "l = [LF] \<or> l \<in> set (file_lines cs)"
      by (auto split: if_splits)
    then show ?thesis
    proof
      assume "l = [LF]"
      then have "(l = [] @ [LF] \<or> l = []) \<and> LF \<notin> set [] \<and> CR \<notin> set []" by simp
      then show ?thesis by blast
    next
      assume "l \<in> set (file_lines cs)"
      then show ?thesis by (rule Cons.IH)
    qed
  next
    case False
    show ?thesis
    proof (cases "file_lines cs")
      case Nil
      with False Cons.prems have "l = [c]" by simp
      with False have "(l = [c] @ [LF] \<or> l = [c]) \<and> LF \<notin> set [c] \<and> CR \<notin> set [c]" by auto
      then show ?thesis by blast
    next
      case (Cons l' ls)
      with False Cons.prems have "l = c # l' \<or> l \<in> set ls" by auto
      then show ?thesis
      proof
        assume l: "l = c # l'"
        from Cons have "l' \<in> set (file_lines cs)" by simp
        from Cons.IH[OF this] obtain body where
          "(l' = body @ [LF] \<or> l' = body) \<and> LF \<notin> set body \<and> CR \<notin> set body" by blast
        with l False
        have "(l = (c # body) @ [LF] \<or> l = c # body) \<and> LF \<notin> set (c # body) \<and> CR \<notin> set (c # body)"
          by auto
        then show ?thesis by blast
      next
        assume "l \<in> set ls"
        with Cons have "l \<in> set (file_lines cs)" by simp
        then show ?thesis by (rule Cons.IH)
      qed
    qed
  qed
qed

lemma strip_subset: "set (strip s) \<subseteq> set s"
proof
  fix c
  assume "c \<in> set (strip s)"
  then have "c \<in> set (dropWhile is_space (rev (dropWhile is_space s)))"
    by (simp add: strip_def)
  then have "c \<in> set (rev (dropWhile is_space s))" by (rule set_dropWhileD)
  then have "c \<in> set (dropWhile is_space s)" by simp
  then show "c \<in> set s" by (rule set_dropWhileD)
qed

lemma strip_newline: "strip (s @ [LF]) = strip s"
proof -
  have sp: "is_space LF" by (simp add: is_space_def LF_def)
  show ?thesis
  proof (cases "\<forall>c\<in>set s. is_space c")
    case True
    then have "dropWhile is_space s = []" by simp
    moreover from True sp have "dropWhile is_space (s @ [LF]) = []" by simp
    ultimately show ?thesis by (simp only: strip_def)
  next
    case False
    then have "dropWhile is_space (s @ [LF]) = dropWhile is_space s @ [LF]"
      by (auto simp: dropWhile_append1)
    with sp show ?thesis by (simp add: strip_def)
  qed
qed

lemma strip_last: "strip s \<noteq> [] \<Longrightarrow> \<not> is_space (last (strip s))"
proof -
  assume ne: "strip s \<noteq> []"
  let ?r = "dropWhile is_space (rev (dropWhile is_space s))"
  from ne have "?r \<noteq> []" by (simp add: strip_def)
  then have "\<not> is_space (hd ?r)" by (rule hd_dropWhile)
  moreover from \<open>?r \<noteq> []\<close> have "last (rev ?r) = hd ?r" by (simp add: last_rev)
  ultimately show ?thesis by (simp add: strip_def)
qed

lemma strip_file_line:
  assumes "l \<in> set (file_lines text)"
  shows "LF \<notin> set (strip l)" and "CR \<notin> set (strip l)"
proof -
  from file_lines_shape[OF assms] obtain body where
    b: "l = body @ [LF] \<or> l = body" "LF \<notin> set body" "CR \<notin> set body" by blast
  then have "strip l = strip body" by (auto simp: strip_newline)
  with strip_subset[of body] b show "LF \<notin> set (strip l)" and "CR \<notin> set (strip l)"
    by auto
qed

lemma set_update_subset: "set (AList.update k v al) \<subseteq> insert (k, v) (set al)"
  by (induction al) auto

lemma dict_of_acc_wf:
  "distinct (map fst acc) \<Longrightarrow> list_all wf_item acc \<Longrightarrow> list_all wf_item items \<Longrightarrow>
     wf_feats (foldl (\<lambda>d (key, value). AList.update key value d) acc items)"
proof (induction items arbitrary: acc)
  case Nil
  then show ?case by (simp add: wf_feats_def)
next
  case (Cons x items)
  obtain k v where x: "x = (k, v)" by (cases x)
  from Cons.prems x have "wf_item (k, v)" by simp
  with Cons.prems(2) set_update_subset[of k v acc]
  have "list_all wf_item (AList.update k v acc)"
    unfolding list_all_iff by blast
  moreover from Cons.prems(1) have "distinct (map fst (AList.update k v acc))"
    by (rule distinct_update)
  ultimately show ?case using Cons x by simp
qed

lemma dict_of_wf: "list_all wf_item items \<Longrightarrow> wf_feats (dict_of items)"
  using dict_of_acc_wf[of "[]" items] by (simp add: dict_of_def)

lemma split_two:
  assumes "split c x = [a, b]"
  shows "c \<notin> set a" and "c \<notin> set b" and "set a \<subseteq> set x" and "set b \<subseteq> set x"
proof -
  have a: "a \<in> set (split c x)" and b: "b \<in> set (split c x)" using assms by simp_all
  from split_no_sep[OF a] show "c \<notin> set a" .
  from split_no_sep[OF b] show "c \<notin> set b" .
  from split_chars[OF a] show "set a \<subseteq> set x" .
  from split_chars[OF b] show "set b \<subseteq> set x" .
qed

lemma item_wf:
  assumes "split (CHR ''='') x = [key, value]"
    and "CHR ''|'' \<notin> set x" "TAB \<notin> set x" "LF \<notin> set x" "CR \<notin> set x"
  shows "wf_item (key, set (split (CHR '','') value))"
proof -
  note kv = split_two[OF assms(1)]
  from kv(1,3) assms(2-5) have "feat_key key"
    by (auto simp: feat_key_def)
  moreover have "\<forall>v\<in>set (split (CHR '','') value). feat_value v"
  proof
    fix v
    assume v: "v \<in> set (split (CHR '','') value)"
    from split_no_sep[OF v] split_chars[OF v] kv(2,4) assms(2-5)
    show "feat_value v" by (auto simp: feat_value_def)
  qed
  moreover have "set (split (CHR '','') value) \<noteq> {}" by simp
  ultimately show ?thesis by simp
qed

lemma feats_items_wf:
  "feats_items xs = Some items \<Longrightarrow>
   \<forall>x\<in>set xs. CHR ''|'' \<notin> set x \<and> TAB \<notin> set x \<and> LF \<notin> set x \<and> CR \<notin> set x \<Longrightarrow>
   list_all wf_item items"
proof (induction xs arbitrary: items)
  case Nil
  then show ?case by simp
next
  case (Cons x xs)
  from Cons.prems(1) obtain key "value" r where
    sp: "split (CHR ''='') x = [key, value]" and r: "feats_items xs = Some r" and
    items: "items = (key, set (split (CHR '','') value)) # r"
    by (auto split: list.splits option.splits)
  from Cons.prems(2) have x: "CHR ''|'' \<notin> set x" "TAB \<notin> set x" "LF \<notin> set x" "CR \<notin> set x"
    by simp_all
  from item_wf[OF sp x] Cons.IH[OF r] Cons.prems(2) items show ?case by simp
qed

lemma read_feats_wf:
  assumes "read_feats s = Some f" "plain s"
  shows "wf_feats f"
proof (cases "s = ''_''")
  case True
  with assms show ?thesis by (simp add: read_feats_def wf_feats_def)
next
  case False
  with assms(1) obtain items where
    items: "feats_items (split (CHR ''|'') s) = Some items" and f: "f = dict_of items"
    by (auto simp: read_feats_def)
  have "\<forall>x\<in>set (split (CHR ''|'') s).
          CHR ''|'' \<notin> set x \<and> TAB \<notin> set x \<and> LF \<notin> set x \<and> CR \<notin> set x"
  proof
    fix x
    assume x: "x \<in> set (split (CHR ''|'') s)"
    from split_no_sep[OF x] split_chars[OF x] assms(2)
    show "CHR ''|'' \<notin> set x \<and> TAB \<notin> set x \<and> LF \<notin> set x \<and> CR \<notin> set x"
      by (auto simp: plain_def)
  qed
  from feats_items_wf[OF items this] f show ?thesis by (simp add: dict_of_wf)
qed

lemma read_id_wf: "read_id s = Inr a \<Longrightarrow> s \<noteq> [] \<Longrightarrow> wf_id a"
  by (auto simp: read_id_def py_int_isdigit split: if_splits option.splits)

lemma read_head_wf: "read_head s = Some a \<Longrightarrow> wf_head a"
  by (auto simp: read_head_def split: if_splits)

lemma split_snoc:
  "split c (s @ [a]) =
     (if a = c then split c s @ [[]] else butlast (split c s) @ [last (split c s) @ [a]])"
proof (induction s)
  case Nil
  show ?case by simp
next
  case (Cons b s)
  obtain x xs where sp: "split c s = x # xs" by (cases "split c s") auto
  show ?case
  proof (cases "a = c")
    case True
    with Cons.IH sp have "split c (s @ [a]) = x # xs @ [[]]" by simp
    with True sp show ?thesis by simp
  next
    case False
    show ?thesis
    proof (cases xs)
      case Nil
      with False Cons.IH sp have "split c (s @ [a]) = [x @ [a]]" by simp
      with False sp Nil show ?thesis by simp
    next
      case (Cons y ys)
      with False Cons.IH sp have "split c (s @ [a]) = x # butlast xs @ [last xs @ [a]]" by simp
      with False sp Cons show ?thesis by simp
    qed
  qed
qed

lemma last_split: "last (split c s) \<noteq> [] \<Longrightarrow> last (last (split c s)) = last s"
proof (cases s rule: rev_cases)
  case Nil
  assume "last (split c s) \<noteq> []"
  with Nil show ?thesis by simp
next
  case (snoc s' a)
  assume "last (split c s) \<noteq> []"
  with snoc show ?thesis by (simp add: split_snoc split: if_splits)
qed

lemma read_word_wf:
  assumes "read_word tags (split TAB line) = Inr w"
    and "LF \<notin> set line" "CR \<notin> set line" "\<not> is_space (last line)"
  shows "wf_word tags w"
proof -
  let ?fs = "split TAB line"
  from assms(1) have len: "length ?fs = 10" and ne: "list_all (\<lambda>item. item \<noteq> []) ?fs"
    by (auto simp: read_word_def split: if_splits)
  obtain f0 f1 f2 f3 f4 f5 f6 f7 f8 f9 where fs: "?fs = [f0, f1, f2, f3, f4, f5, f6, f7, f8, f9]"
  proof -
    from len obtain f0 r0 where "?fs = f0 # r0" "length r0 = 9" by (cases ?fs) auto
    moreover then obtain f1 r1 where "r0 = f1 # r1" "length r1 = 8" by (cases r0) auto
    moreover then obtain f2 r2 where "r1 = f2 # r2" "length r2 = 7" by (cases r1) auto
    moreover then obtain f3 r3 where "r2 = f3 # r3" "length r3 = 6" by (cases r2) auto
    moreover then obtain f4 r4 where "r3 = f4 # r4" "length r4 = 5" by (cases r3) auto
    moreover then obtain f5 r5 where "r4 = f5 # r5" "length r5 = 4" by (cases r4) auto
    moreover then obtain f6 r6 where "r5 = f6 # r6" "length r6 = 3" by (cases r5) auto
    moreover then obtain f7 r7 where "r6 = f7 # r7" "length r7 = 2" by (cases r6) auto
    moreover then obtain f8 r8 where "r7 = f8 # r8" "length r8 = 1" by (cases r7) auto
    moreover then obtain f9 where "r8 = [f9]" by (cases r8) auto
    ultimately show ?thesis using that by simp
  qed
  have pl: "plain f" if "f \<in> set ?fs" for f
  proof -
    from ne that have "f \<noteq> []" by (simp add: list_all_iff)
    with split_no_sep[OF that] split_chars[OF that] assms(2,3) show ?thesis
      by (auto simp: plain_def)
  qed
  have plains: "plain f0" "plain f1" "plain f2" "plain f3" "plain f4" "plain f5" "plain f6"
    "plain f7" "plain f8" "plain f9"
    using pl fs by simp_all
  from assms(1) fs obtain ident feats head where
    id: "read_id f0 = Inr ident" and upos: "f3 \<in> set tags \<or> f3 = ''_''" and
    fe: "read_feats f5 = Some feats" and he: "read_head f6 = Some head" and
    w: "w = \<lparr>ID = ident, FORM = f1, LEMMA = f2, UPOSTAG = f3, XPOSTAG = f4, FEATS = feats,
             HEAD = head, DEPREL = f7, DEPS = f8, MISC = f9\<rparr>"
    by (auto simp: read_word_ten split: if_splits sum.splits option.splits)
  from plains(1) have "f0 \<noteq> []" by (simp add: plain_def)
  from read_id_wf[OF id this] have "wf_id ident" .
  moreover from read_feats_wf[OF fe plains(6)] have "wf_feats feats" .
  moreover from read_head_wf[OF he] have "wf_head head" .
  moreover have "\<not> is_space (last f9)"
  proof -
    from fs have l: "last ?fs = f9" by simp
    with plains(10) have "last ?fs \<noteq> []" by (simp add: plain_def)
    from last_split[OF this] l assms(4) show ?thesis by simp
  qed
  ultimately show ?thesis
    using plains upos w by (simp add: wf_word_def)
qed

lemma read_line_wf:
  assumes "read_line self inc st line = Inr (st', out)"
    and "list_all (\<lambda>w. wf_word (POS_TAGS self) w \<and> (inc \<or> is_int (ID w))) (sent st)"
    and "LF \<notin> set line" "CR \<notin> set line" "line \<noteq> [] \<longrightarrow> \<not> is_space (last line)"
  shows "list_all (\<lambda>w. wf_word (POS_TAGS self) w \<and> (inc \<or> is_int (ID w))) (sent st')"
    and "\<forall>name s. out = Some (name, s) \<longrightarrow>
           list_all (\<lambda>w. wf_word (POS_TAGS self) w \<and> (inc \<or> is_int (ID w))) s"
proof -
  have "list_all (\<lambda>w. wf_word (POS_TAGS self) w \<and> (inc \<or> is_int (ID w))) (sent st') \<and>
        (\<forall>name s. out = Some (name, s) \<longrightarrow>
           list_all (\<lambda>w. wf_word (POS_TAGS self) w \<and> (inc \<or> is_int (ID w))) s)"
  proof (cases "startswith line ''#''")
    case True
    with assms(1,2) show ?thesis
      by (auto simp: read_line_def split: if_splits sum.splits)
  next
    case False
    show ?thesis
    proof (cases "line = []")
      case True
      with False assms(1,2) show ?thesis
        by (auto simp: read_line_def Let_def)
    next
      case ne: False
      with False assms(1) obtain w where
        w: "read_word (POS_TAGS self) (split TAB line) = Inr w" and
        st': "st' = (if inc \<or> is_int (ID w) then st\<lparr>sent := sent st @ [w]\<rparr> else st)" and
        out: "out = None"
        by (auto simp: read_line_def split: sum.splits)
      from ne assms(5) have "\<not> is_space (last line)" by simp
      from read_word_wf[OF w assms(3,4) this] st' out assms(2) show ?thesis
        by auto
    qed
  qed
  then show "list_all (\<lambda>w. wf_word (POS_TAGS self) w \<and> (inc \<or> is_int (ID w))) (sent st')"
    and "\<forall>name s. out = Some (name, s) \<longrightarrow>
           list_all (\<lambda>w. wf_word (POS_TAGS self) w \<and> (inc \<or> is_int (ID w))) s"
    by simp_all
qed

lemma read_lines_wf:
  assumes "list_all (\<lambda>w. wf_word (POS_TAGS self) w \<and> (inc \<or> is_int (ID w))) (sent st)"
    and "\<forall>l\<in>set ls. LF \<notin> set (strip l) \<and> CR \<notin> set (strip l)"
  shows "list_all (list_all (\<lambda>w. wf_word (POS_TAGS self) w \<and> (inc \<or> is_int (ID w))))
           (map snd (fst (read_lines self inc e k st ls)))"
  using assms
proof (induction ls arbitrary: k st)
  case Nil
  show ?case by simp
next
  case (Cons l ls)
  show ?case
  proof (cases "read_line self inc st (strip l)")
    case (Inl e)
    then show ?thesis by simp
  next
    case (Inr r)
    obtain st' out where r: "r = (st', out)" by (cases r)
    from Cons.prems(2) have l: "LF \<notin> set (strip l)" "CR \<notin> set (strip l)" by simp_all
    have e: "strip l \<noteq> [] \<longrightarrow> \<not> is_space (last (strip l))" using strip_last by blast
    note wf = read_line_wf[OF Inr[unfolded r] Cons.prems(1) l e]
    from Cons.prems(2) have "\<forall>l\<in>set ls. LF \<notin> set (strip l) \<and> CR \<notin> set (strip l)" by simp
    from Cons.IH[OF wf(1) this, of "Suc k"] wf(2) Inr r show ?thesis
      by (cases "read_lines self inc e (Suc k) st' ls") (auto split: option.splits)
  qed
qed

lemma gen_sentences_wf:
  "list_all (list_all (\<lambda>w. wf_word (POS_TAGS self) w \<and> (inc \<or> is_int (ID w))))
     (map snd (fst (gen_sentences self inc (File text e))))"
  unfolding gen_sentences_def conllu_file.case
  by (rule read_lines_wf) (simp_all add: reader0_def strip_file_line)

lemma sort_key_Nil: "sort_key f xs = [] \<longleftrightarrow> xs = []"
  by (metis length_sort length_0_conv)

lemma format_feats_sorted: "format_feats (sort_key fst f) = format_feats f"
  by (simp add: format_feats_def sort_key_Nil sort_key_id_if_sorted)

lemma format_word_canon: "format_word (canon w) = format_word w"
  by (simp add: format_word_def word_fields_def canon_def format_feats_sorted)

lemma format_sentence_canon: "format_sentence (map canon s) = format_sentence s"
  by (simp add: format_sentence_def format_word_canon comp_def)

lemma read_word_cases:
  assumes "read_word tags fs = Inr w"
  obtains f0 f1 f2 f3 f4 f5 f6 f7 f8 f9 ident feats head where
    "fs = [f0, f1, f2, f3, f4, f5, f6, f7, f8, f9]" and
    "read_id f0 = Inr ident" and "read_feats f5 = Some feats" and "read_head f6 = Some head" and
    "w = \<lparr>ID = ident, FORM = f1, LEMMA = f2, UPOSTAG = f3, XPOSTAG = f4, FEATS = feats,
          HEAD = head, DEPREL = f7, DEPS = f8, MISC = f9\<rparr>"
proof -
  from assms have len: "length fs = 10"
    by (auto simp: read_word_def split: if_splits)
  obtain f0 f1 f2 f3 f4 f5 f6 f7 f8 f9 where fs: "fs = [f0, f1, f2, f3, f4, f5, f6, f7, f8, f9]"
  proof -
    from len obtain f0 r0 where "fs = f0 # r0" "length r0 = 9" by (cases fs) auto
    moreover then obtain f1 r1 where "r0 = f1 # r1" "length r1 = 8" by (cases r0) auto
    moreover then obtain f2 r2 where "r1 = f2 # r2" "length r2 = 7" by (cases r1) auto
    moreover then obtain f3 r3 where "r2 = f3 # r3" "length r3 = 6" by (cases r2) auto
    moreover then obtain f4 r4 where "r3 = f4 # r4" "length r4 = 5" by (cases r3) auto
    moreover then obtain f5 r5 where "r4 = f5 # r5" "length r5 = 4" by (cases r4) auto
    moreover then obtain f6 r6 where "r5 = f6 # r6" "length r6 = 3" by (cases r5) auto
    moreover then obtain f7 r7 where "r6 = f7 # r7" "length r7 = 2" by (cases r6) auto
    moreover then obtain f8 r8 where "r7 = f8 # r8" "length r8 = 1" by (cases r7) auto
    moreover then obtain f9 where "r8 = [f9]" by (cases r8) auto
    ultimately show ?thesis using that by simp
  qed
  from assms fs obtain ident feats head where
    "read_id f0 = Inr ident" "read_feats f5 = Some feats" "read_head f6 = Some head"
    "w = \<lparr>ID = ident, FORM = f1, LEMMA = f2, UPOSTAG = f3, XPOSTAG = f4, FEATS = feats,
          HEAD = head, DEPREL = f7, DEPS = f8, MISC = f9\<rparr>"
    by (auto simp: read_word_ten split: if_splits sum.splits option.splits)
  with fs show ?thesis by (rule that)
qed

lemma word_fields_of_line:
  assumes "read_word tags fs = Inr w"
  shows "word_fields w =
           fs[0 := py_str (ID w), 5 := format_feats (FEATS w), 6 := py_str (HEAD w)]"
proof -
  from assms obtain f0 f1 f2 f3 f4 f5 f6 f7 f8 f9 ident feats head where
    "fs = [f0, f1, f2, f3, f4, f5, f6, f7, f8, f9]" and
    "w = \<lparr>ID = ident, FORM = f1, LEMMA = f2, UPOSTAG = f3, XPOSTAG = f4, FEATS = feats,
          HEAD = head, DEPREL = f7, DEPS = f8, MISC = f9\<rparr>"
    by (rule read_word_cases)
  then show ?thesis by (simp add: word_fields_def eval_nat_numeral)
qed

lemma format_parsed_line:
  assumes "read_word tags (split TAB line) = Inr w"
    and "LF \<notin> set line" "CR \<notin> set line" "\<not> is_space (last line)"
  shows "split TAB (format_word w) =
           (split TAB line)[0 := py_str (ID w), 5 := format_feats (FEATS w),
                            6 := py_str (HEAD w)]"
    and "read_word tags (split TAB (format_word w)) = Inr (canon w)"
    and "format_word w = line \<longleftrightarrow>
           py_str (ID w) = split TAB line ! 0 \<and> format_feats (FEATS w) = split TAB line ! 5 \<and>
           py_str (HEAD w) = split TAB line ! 6"
proof -
  from read_word_wf[OF assms] have wf: "wf_word tags w" .
  from split_format_word[OF wf] word_fields_of_line[OF assms(1)]
  show 1: "split TAB (format_word w) =
           (split TAB line)[0 := py_str (ID w), 5 := format_feats (FEATS w),
                            6 := py_str (HEAD w)]"
    by simp
  from wf show "read_word tags (split TAB (format_word w)) = Inr (canon w)"
    by (rule read_format_word)
  have "format_word w = line \<longleftrightarrow> split TAB (format_word w) = split TAB line"
    by (metis join_split)
  also have "\<dots> \<longleftrightarrow>
      (split TAB line)[0 := py_str (ID w), 5 := format_feats (FEATS w), 6 := py_str (HEAD w)] =
        split TAB line"
    by (simp only: 1)
  also have "\<dots> \<longleftrightarrow>
      py_str (ID w) = split TAB line ! 0 \<and> format_feats (FEATS w) = split TAB line ! 5 \<and>
      py_str (HEAD w) = split TAB line ! 6"
  proof -
    from assms(1) obtain f0 f1 f2 f3 f4 f5 f6 f7 f8 f9 where
      "split TAB line = [f0, f1, f2, f3, f4, f5, f6, f7, f8, f9]"
      by (rule read_word_cases)
    then show ?thesis by (auto simp: eval_nat_numeral)
  qed
  finally show "format_word w = line \<longleftrightarrow>
           py_str (ID w) = split TAB line ! 0 \<and> format_feats (FEATS w) = split TAB line ! 5 \<and>
           py_str (HEAD w) = split TAB line ! 6" .
qed

lemma write_sentences_words:
  "write_sentences self True (map (map W) ss) = Inr (concat (map format_sentence ss))"
  by (simp add: write_sentences_def write_all_words)

lemma FEATS_canon_sorted: "sorted (map fst (FEATS (canon w)))"
  by (simp add: canon_def)

lemma written_feats:
  assumes "wf_feats f"
  shows "f \<noteq> [] \<longrightarrow> split (CHR ''|'') (format_feats f) = map format_feat (sort_key fst f)"
    and "\<forall>(key, value)\<in>set f.
           \<exists>vs. sorted vs \<and> distinct vs \<and> set vs = value \<and>
                split (CHR ''='') (format_feat (key, value)) = [key, join '','' vs] \<and>
                split (CHR '','') (join '','' vs) = vs"
proof -
  show "f \<noteq> [] \<longrightarrow> split (CHR ''|'') (format_feats f) = map format_feat (sort_key fst f)"
    using split_format_feats[OF assms] by blast
  from wf_feats_items[OF assms] have "\<forall>x\<in>set f. wf_item x" by (simp add: list_all_iff)
  then show "\<forall>(key, value)\<in>set f.
           \<exists>vs. sorted vs \<and> distinct vs \<and> set vs = value \<and>
                split (CHR ''='') (format_feat (key, value)) = [key, join '','' vs] \<and>
                split (CHR '','') (join '','' vs) = vs"
    using split_format_feat by blast
qed

text \<open>
  C2, as stated: \<^verbatim>\<open>format_word\<close> is the exact left inverse of the line parser, but for the
  order in FEATS. The parser accepts the line whose id is written \<open>01\<close> and reads the integer
  1; the line written from the word begins with \<open>1\<close>. The FEATS of the line is the
  placeholder, so its order is not the cause.
\<close>

theorem format_not_left_inverse:
  "map_sum id format_word (read_word [''DET''] (split TAB line_leading_zero)) = Inr line_the \<and>
   line_the \<noteq> line_leading_zero"
  by code_simp

text \<open>
  C2, amended. For every sequence of sentences of well-formed words, \<^verbatim>\<open>write_sentences\<close>
  writes a text from which \<^verbatim>\<open>gen_sentences\<close>, asked to keep every record, yields the same
  sentences without an error, each word with its FEATS in the order of the keys. A
  well-formed word is given back in that order by reading its line, and its FEATS is
  written as the placeholder when empty and else as its entries in ascending order of the
  keys, separated by bars, each the key, an equals sign and the values in ascending order
  without repetition, separated by commas. For every line of a file that the parser
  accepts, \<^verbatim>\<open>format_word\<close> writes the same ten fields in the same order, except that the id
  and the head are written as \<^verbatim>\<open>str\<close> prints the values read and FEATS is written in that
  form; the line written is the line read exactly when these three fields were in that
  form already, and reading the line written gives the word read, FEATS in key order.
\<close>

theorem read_of_written:
  "(list_all (list_all (wf_word (POS_TAGS self))) sents \<longrightarrow>
      write_sentences self True (map (map W) sents) = Inr (concat (map format_sentence sents)) \<and>
      map snd (fst (gen_sentences self True (File (concat (map format_sentence sents)) EOF))) =
        map (map canon) sents \<and>
      snd (gen_sentences self True (File (concat (map format_sentence sents)) EOF)) = None) \<and>
   (wf_word (POS_TAGS self) w \<longrightarrow>
      read_word (POS_TAGS self) (split TAB (format_word w)) = Inr (canon w) \<and>
      format_word (canon w) = format_word w \<and>
      sorted (map fst (FEATS (canon w))) \<and>
      (FEATS w = [] \<longrightarrow> format_feats (FEATS w) = ''_'') \<and>
      (FEATS w \<noteq> [] \<longrightarrow>
         split (CHR ''|'') (format_feats (FEATS w)) = map format_feat (FEATS (canon w))) \<and>
      (\<forall>(key, value)\<in>set (FEATS w).
         \<exists>vs. sorted vs \<and> distinct vs \<and> set vs = value \<and>
              split (CHR ''='') (format_feat (key, value)) = [key, join '','' vs] \<and>
              split (CHR '','') (join '','' vs) = vs)) \<and>
   (read_word (POS_TAGS self) (split TAB line) = Inr v \<and>
    LF \<notin> set line \<and> CR \<notin> set line \<and> \<not> is_space (last line) \<longrightarrow>
      split TAB (format_word v) =
        (split TAB line)[0 := py_str (ID v), 5 := format_feats (FEATS v), 6 := py_str (HEAD v)] \<and>
      read_word (POS_TAGS self) (split TAB (format_word v)) = Inr (canon v) \<and>
      (format_word v = line \<longleftrightarrow>
         py_str (ID v) = split TAB line ! 0 \<and> format_feats (FEATS v) = split TAB line ! 5 \<and>
         py_str (HEAD v) = split TAB line ! 6))"
proof (intro conjI impI)
  assume wf: "list_all (list_all (wf_word (POS_TAGS self))) sents"
  show "write_sentences self True (map (map W) sents) = Inr (concat (map format_sentence sents))"
    by (rule gen_sentences_written(1)[OF wf])
  show "map snd (fst (gen_sentences self True (File (concat (map format_sentence sents)) EOF))) =
        map (map canon) sents"
    using gen_sentences_written(2)[OF wf, where inc = True] by simp
  show "snd (gen_sentences self True (File (concat (map format_sentence sents)) EOF)) = None"
    by (rule gen_sentences_written(3)[OF wf])
next
  assume wf: "wf_word (POS_TAGS self) w"
  then have f: "wf_feats (FEATS w)" by (simp add: wf_word_def)
  show "read_word (POS_TAGS self) (split TAB (format_word w)) = Inr (canon w)"
    using wf by (rule read_format_word)
  show "format_word (canon w) = format_word w" by (rule format_word_canon)
  show "sorted (map fst (FEATS (canon w)))" by (rule FEATS_canon_sorted)
  show "format_feats (FEATS w) = ''_''" if "FEATS w = []"
    using that by (simp add: format_feats_def)
  show "split (CHR ''|'') (format_feats (FEATS w)) = map format_feat (FEATS (canon w))"
    if "FEATS w \<noteq> []"
    using written_feats(1)[OF f] that by (simp add: canon_def)
  show "\<forall>(key, value)\<in>set (FEATS w).
         \<exists>vs. sorted vs \<and> distinct vs \<and> set vs = value \<and>
              split (CHR ''='') (format_feat (key, value)) = [key, join '','' vs] \<and>
              split (CHR '','') (join '','' vs) = vs"
    by (rule written_feats(2)[OF f])
next
  assume a: "read_word (POS_TAGS self) (split TAB line) = Inr v \<and>
    LF \<notin> set line \<and> CR \<notin> set line \<and> \<not> is_space (last line)"
  then have r: "read_word (POS_TAGS self) (split TAB line) = Inr v"
    and l: "LF \<notin> set line" "CR \<notin> set line" "\<not> is_space (last line)"
    by simp_all
  note n = format_parsed_line[OF r l]
  show "split TAB (format_word v) =
        (split TAB line)[0 := py_str (ID v), 5 := format_feats (FEATS v), 6 := py_str (HEAD v)]"
    by (rule n(1))
  show "read_word (POS_TAGS self) (split TAB (format_word v)) = Inr (canon v)"
    by (rule n(2))
  show "format_word v = line \<longleftrightarrow>
         py_str (ID v) = split TAB line ! 0 \<and> format_feats (FEATS v) = split TAB line ! 5 \<and>
         py_str (HEAD v) = split TAB line ! 6"
    by (rule n(3))
qed

theorem read_of_written_witness:
  "list_all (list_all (wf_word (POS_TAGS example_dataset))) [[word_dogs]] \<and>
   write_sentences example_dataset True [[W word_dogs]] = Inr (line_dogs_sorted @ [LF, LF]) \<and>
   map snd (fst (gen_sentences example_dataset True (File (line_dogs_sorted @ [LF, LF]) EOF))) =
     [[canon word_dogs]] \<and>
   FEATS (canon word_dogs) = [(''Case'', {''Nom'', ''Acc''}), (''Number'', {''Plur''})] \<and>
   split (CHR ''|'') (format_feats (FEATS word_dogs)) = [''Case=Acc,Nom'', ''Number=Plur''] \<and>
   read_word (POS_TAGS example_dataset) (split TAB line_dogs) = Inr word_dogs \<and>
   split TAB (format_word word_dogs) =
     (split TAB line_dogs)[0 := ''1'', 5 := ''Case=Acc,Nom|Number=Plur'', 6 := ''0''] \<and>
   format_word word_dogs \<noteq> line_dogs"
proof -
  have a: "list_all (list_all (wf_word (POS_TAGS example_dataset))) [[word_dogs]]"
    by (simp add: wf_word_def example_dataset_def word_dogs_def plain_def wf_feats_def
          feat_key_def feat_value_def is_space_def TAB_def LF_def CR_def)
  then have a': "wf_word (POS_TAGS example_dataset) word_dogs" by simp
  have b: "concat (map format_sentence [[word_dogs]]) = line_dogs_sorted @ [LF, LF]"
    by code_simp
  have c: "FEATS (canon word_dogs) = [(''Case'', {''Nom'', ''Acc''}), (''Number'', {''Plur''})]"
    by (simp add: canon_def word_dogs_def)
  have d: "map format_feat [(''Case'', {''Nom'', ''Acc''}), (''Number'', {''Plur''})] =
             [''Case=Acc,Nom'', ''Number=Plur'']"
    by code_simp
  have e: "FEATS word_dogs \<noteq> []" by (simp add: word_dogs_def)
  have r: "read_word (POS_TAGS example_dataset) (split TAB line_dogs) = Inr word_dogs"
    by code_simp
  have l: "LF \<notin> set line_dogs" "CR \<notin> set line_dogs" "\<not> is_space (last line_dogs)"
    by code_simp+
  have f: "py_str (ID word_dogs) = ''1''" "format_feats (FEATS word_dogs) = ''Case=Acc,Nom|Number=Plur''"
    "py_str (HEAD word_dogs) = ''0''" "split TAB line_dogs ! 5 = ''Number=Plur|Case=Nom,Acc''"
    by code_simp+
  note t = read_of_written[of example_dataset "[[word_dogs]]" word_dogs line_dogs word_dogs]
  from t a b
  have 1: "write_sentences example_dataset True [[W word_dogs]] = Inr (line_dogs_sorted @ [LF, LF])"
    and 2: "map snd (fst (gen_sentences example_dataset True
              (File (line_dogs_sorted @ [LF, LF]) EOF))) = [[canon word_dogs]]"
    by simp_all
  from t a' e c d
  have 3: "split (CHR ''|'') (format_feats (FEATS word_dogs)) = [''Case=Acc,Nom'', ''Number=Plur'']"
    by simp
  from t r l f
  have 4: "split TAB (format_word word_dogs) =
     (split TAB line_dogs)[0 := ''1'', 5 := ''Case=Acc,Nom|Number=Plur'', 6 := ''0'']"
    and 5: "format_word word_dogs \<noteq> line_dogs"
    by simp_all
  from a 1 2 c 3 r 4 5 show ?thesis by blast
qed

text \<open>
  C8. When a text is read without an error, writing the sentences read gives a text that
  is read without an error as well, and writing the sentences read from it gives the same
  text, character by character.
\<close>

theorem write_read_fixed_point:
  assumes "snd (gen_sentences self inc (File input EOF)) = None"
  shows "\<exists>written. 
           write_sentences self True (map (map W \<circ> snd) (fst (gen_sentences self inc (File input EOF)))) =
             Inr written \<and>
           snd (gen_sentences self inc (File written EOF)) = None \<and>
           write_sentences self True (map (map W \<circ> snd) (fst (gen_sentences self inc (File written EOF)))) =
             Inr written"
proof -
  let ?sents = "map snd (fst (gen_sentences self inc (File input EOF)))"
  let ?written = "concat (map format_sentence ?sents)"
  from gen_sentences_wf[of self inc input EOF]
  have good: "list_all (list_all (\<lambda>w. wf_word (POS_TAGS self) w \<and> (inc \<or> is_int (ID w)))) ?sents" .
  then have wf: "list_all (list_all (wf_word (POS_TAGS self))) ?sents"
    by (auto simp: list_all_iff)
  from good have keep: "map (\<lambda>s. map canon (filter (\<lambda>w. inc \<or> is_int (ID w)) s)) ?sents =
      map (map canon) ?sents"
    by (auto simp: list_all_iff intro!: map_cong filter_True)
  note w = gen_sentences_written(1)[OF wf] gen_sentences_written(2)[OF wf, where inc = inc]
    gen_sentences_written(3)[OF wf, where inc = inc]
  have 1: "write_sentences self True (map (map W \<circ> snd) (fst (gen_sentences self inc (File input EOF)))) =
             Inr ?written"
    using w(1) by (simp add: comp_def)
  have 2: "snd (gen_sentences self inc (File ?written EOF)) = None" by (rule w(3))
  have "map snd (fst (gen_sentences self inc (File ?written EOF))) = map (map canon) ?sents"
    using w(2) keep by simp
  then have "map (map W \<circ> snd) (fst (gen_sentences self inc (File ?written EOF))) =
        map (map W) (map (map canon) ?sents)"
    by (metis map_map)
  moreover have "write_sentences self True (map (map W) (map (map canon) ?sents)) =
        Inr (concat (map format_sentence (map (map canon) ?sents)))"
    by (rule write_sentences_words)
  moreover have "concat (map format_sentence (map (map canon) ?sents)) = ?written"
    by (simp add: comp_def format_sentence_canon)
  ultimately have 3:
    "write_sentences self True (map (map W \<circ> snd) (fst (gen_sentences self inc (File ?written EOF)))) =
       Inr ?written"
    by simp
  from 1 2 3 show ?thesis by blast
qed

theorem write_read_fixed_point_witness:
  "snd (gen_sentences example_dataset False (File (line_dogs @ [LF, LF]) EOF)) = None \<and>
   write_sentences example_dataset True
     (map (map W \<circ> snd) (fst (gen_sentences example_dataset False (File (line_dogs @ [LF, LF]) EOF)))) =
     Inr (line_dogs_sorted @ [LF, LF]) \<and>
   write_sentences example_dataset True
     (map (map W \<circ> snd)
        (fst (gen_sentences example_dataset False (File (line_dogs_sorted @ [LF, LF]) EOF)))) =
     Inr (line_dogs_sorted @ [LF, LF])"
proof -
  have a: "snd (gen_sentences example_dataset False (File (line_dogs @ [LF, LF]) EOF)) = None"
    by code_simp
  have b: "write_sentences example_dataset True
     (map (map W \<circ> snd) (fst (gen_sentences example_dataset False (File (line_dogs @ [LF, LF]) EOF)))) =
     Inr (line_dogs_sorted @ [LF, LF])"
    by code_simp
  from write_read_fixed_point[OF a] b
  have "write_sentences example_dataset True
     (map (map W \<circ> snd)
        (fst (gen_sentences example_dataset False (File (line_dogs_sorted @ [LF, LF]) EOF)))) =
     Inr (line_dogs_sorted @ [LF, LF])"
    by auto
  with a b show ?thesis by blast
qed

end
